theory Spec2Isabelle
  imports Main
begin

unbundle bit_operations_syntax

section \<open>The store: wires, observers and converters\<close>

text \<open>
  The program (\<^verbatim>\<open>logic_add.py\<close>) simulates logic gates with the observer pattern. A
  \<^verbatim>\<open>Wire\<close> is a mutable object shared by the components attached to it, so wires live in
  an explicit store and are named by their address. The gates and displays never change
  after construction and are kept by value in the observer lists; a \<^verbatim>\<open>Converter\<close>
  records its result when it is notified, so it lives in the store too.

  Python integers are unbounded: \<open>int\<close>. An attribute that has not been assigned yet
  (\<^verbatim>\<open>__value\<close>, \<^verbatim>\<open>__result\<close>, \<^verbatim>\<open>__sign\<close>) is \<open>None\<close>; reading it raises
  \<^verbatim>\<open>AttributeError\<close>.
\<close>

type_synonym wire_ref = nat
type_synonym converter_ref = nat

datatype error = AssertionError | AttributeError | IndexError

datatype gate_kind = AndGate | OrGate | XorGate

datatype observer =
    Display string wire_ref
  | DoubleInputGate gate_kind wire_ref wire_ref wire_ref
  | ConverterObs converter_ref

record wire =
  wire_value :: "int option"
  wire_observers :: "observer list"

record converter =
  conv_outputs :: "wire_ref list"
  conv_result :: "int option"
  conv_sign :: "int option"

text \<open>
  \<open>next_wire\<close> and \<open>next_converter\<close> are the allocation counters: a constructor takes
  the next address, so a new object is distinct from every object made before.
  \<open>printed\<close> is what the \<^verbatim>\<open>Display\<close> objects have printed so far, one entry (name,
  value) per line \<^verbatim>\<open>name: value\<close>.
\<close>

record heap =
  wires :: "wire_ref \<Rightarrow> wire"
  next_wire :: nat
  converters :: "converter_ref \<Rightarrow> converter"
  next_converter :: nat
  printed :: "(string \<times> int) list"

text \<open>
  A call either returns a value or raises; both leave a store behind. A call that does
  not come back for lack of fuel (an endless cascade) is \<open>None\<close>.
\<close>

datatype 'a outcome = Return 'a heap | Raise error heap

definition empty_heap :: heap where
  "empty_heap =
     \<lparr>wires = (\<lambda>_. \<lparr>wire_value = None, wire_observers = []\<rparr>), next_wire = 0,
      converters = (\<lambda>_. \<lparr>conv_outputs = [], conv_result = None, conv_sign = None\<rparr>),
      next_converter = 0, printed = []\<rparr>"

section \<open>Observable and Wire\<close>

text \<open>\<^verbatim>\<open>Wire()\<close>: \<^verbatim>\<open>Observable.__init__\<close> gives the empty observer list; no value yet.\<close>

definition Wire :: "heap \<Rightarrow> wire_ref \<times> heap" where
  "Wire h =
     (next_wire h,
      h\<lparr>wires := (wires h)(next_wire h := \<lparr>wire_value = None, wire_observers = []\<rparr>),
        next_wire := Suc (next_wire h)\<rparr>)"

definition add_observer :: "heap \<Rightarrow> wire_ref \<Rightarrow> observer \<Rightarrow> heap" where
  "add_observer h w ob =
     h\<lparr>wires := (wires h)(w := (wires h w)\<lparr>wire_observers := wire_observers (wires h w) @ [ob]\<rparr>)\<rparr>"

definition is_set :: "heap \<Rightarrow> wire_ref \<Rightarrow> bool" where
  "is_set h w = (wire_value (wires h w) \<noteq> None)"

definition get_value :: "heap \<Rightarrow> wire_ref \<Rightarrow> error + int" where
  "get_value h w = (case wire_value (wires h w) of None \<Rightarrow> Inl AttributeError | Some v \<Rightarrow> Inr v)"

text \<open>The assignment \<^verbatim>\<open>self.__value = value\<close> of \<^verbatim>\<open>Wire.set\<close>.\<close>

definition store_value :: "heap \<Rightarrow> wire_ref \<Rightarrow> int \<Rightarrow> heap" where
  "store_value h w v = h\<lparr>wires := (wires h)(w := (wires h w)\<lparr>wire_value := Some v\<rparr>)\<rparr>"

section \<open>The bit-vector codec\<close>

text \<open>
  \<^verbatim>\<open>to_binary\<close>: the loop \<^verbatim>\<open>while len(result) < num_bits\<close> with its three variables.
  On Python's integers \<^verbatim>\<open>n & 1\<close> and \<^verbatim>\<open>n >>= 1\<close> act on the infinite two's complement
  form, as \<open>AND\<close> and \<open>drop_bit\<close> do on \<open>int\<close>.
\<close>

function to_binary_loop :: "int list \<Rightarrow> int \<Rightarrow> int \<Rightarrow> int list" where
  "to_binary_loop result n num_bits =
     (if int (length result) < num_bits
      then to_binary_loop (result @ [n AND 1]) (drop_bit 1 n) num_bits
      else result)"
  by pat_completeness auto
termination
  by (relation "measure (\<lambda>(result, n, num_bits). nat (num_bits - int (length result)))") auto

declare to_binary_loop.simps [simp del]

definition to_binary :: "int \<Rightarrow> int \<Rightarrow> int list" where
  "to_binary n num_bits = to_binary_loop [] n num_bits"

text \<open>\<^verbatim>\<open>from_binary\<close>: the loop over \<^verbatim>\<open>lst[::-1]\<close>, shifting left and or-ing each digit in.\<close>

definition from_binary :: "int list \<Rightarrow> int" where
  "from_binary lst = foldl (\<lambda>result d. push_bit 1 result OR d) 0 (rev lst)"

section \<open>Gates and the propagation of a set\<close>

fun operation :: "gate_kind \<Rightarrow> int \<Rightarrow> int \<Rightarrow> int" where
  "operation AndGate x y = x AND y"
| "operation OrGate x y = x OR y"
| "operation XorGate x y = x XOR y"

text \<open>The list comprehension \<^verbatim>\<open>[output.value for output in outputs]\<close>.\<close>

fun read_values :: "heap \<Rightarrow> wire_ref list \<Rightarrow> error + int list" where
  "read_values h [] = Inr []"
| "read_values h (w # ws) =
     (case get_value h w of
        Inl e \<Rightarrow> Inl e
      | Inr v \<Rightarrow> (case read_values h ws of Inl e \<Rightarrow> Inl e | Inr vs \<Rightarrow> Inr (v # vs)))"

text \<open>
  \<^verbatim>\<open>Converter.update\<close>. \<^verbatim>\<open>binary_list[-1]\<close> raises \<^verbatim>\<open>IndexError\<close> on the empty list,
  after \<^verbatim>\<open>__result\<close> has been assigned.
\<close>

definition converter_update :: "heap \<Rightarrow> converter_ref \<Rightarrow> unit outcome" where
  "converter_update h c =
     (let outputs = conv_outputs (converters h c) in
      if list_all (is_set h) outputs then
        (case read_values h outputs of
           Inl e \<Rightarrow> Raise e h
         | Inr binary_list \<Rightarrow>
             (let h1 = h\<lparr>converters := (converters h)
                         (c := (converters h c)\<lparr>conv_result := Some (from_binary binary_list)\<rparr>)\<rparr>
              in if binary_list = [] then Raise IndexError h1
                 else Return ()
                   (h1\<lparr>converters := (converters h1)
                         (c := (converters h1 c)\<lparr>conv_sign := Some (last binary_list)\<rparr>)\<rparr>)))
      else Return () h)"

text \<open>\<^verbatim>\<open>Display.update\<close>: prints the name and the value of its wire.\<close>

definition display_update :: "heap \<Rightarrow> string \<Rightarrow> wire_ref \<Rightarrow> unit outcome" where
  "display_update h name w =
     (case get_value h w of
        Inl e \<Rightarrow> Raise e h
      | Inr v \<Rightarrow> Return () (h\<lparr>printed := printed h @ [(name, v)]\<rparr>))"

text \<open>
  \<^verbatim>\<open>Wire.set\<close>, \<^verbatim>\<open>Observable.notify_observers\<close> and the \<^verbatim>\<open>update\<close> methods call each
  other: setting a wire notifies its observers, and a gate whose two inputs are set sets
  its output wire inside that notification. Nothing in the program stops a gate from
  feeding one of its own inputs, so the cascade need not end; the first argument is the
  depth of nested \<^verbatim>\<open>set\<close> calls still allowed, and \<open>None\<close> is a cascade deeper than that.
  The observer list is read when the notification starts; no \<^verbatim>\<open>update\<close> adds an
  observer.
\<close>

fun set_wire :: "nat \<Rightarrow> heap \<Rightarrow> wire_ref \<Rightarrow> int \<Rightarrow> unit outcome option"
  and notify_observers :: "nat \<Rightarrow> heap \<Rightarrow> observer list \<Rightarrow> unit outcome option"
  and update :: "nat \<Rightarrow> heap \<Rightarrow> observer \<Rightarrow> unit outcome option"
where
  "set_wire 0 h w v = None"
| "set_wire (Suc fuel) h w v =
     (if v \<noteq> 0 \<and> v \<noteq> 1 then Some (Raise AssertionError h)
      else notify_observers fuel (store_value h w v) (wire_observers (wires h w)))"
| "notify_observers fuel h [] = Some (Return () h)"
| "notify_observers fuel h (observer # rest) =
     (case update fuel h observer of
        None \<Rightarrow> None
      | Some (Raise e h') \<Rightarrow> Some (Raise e h')
      | Some (Return _ h') \<Rightarrow> notify_observers fuel h' rest)"
| "update fuel h (Display name w) = Some (display_update h name w)"
| "update fuel h (DoubleInputGate kind input1 input2 output) =
     (if is_set h input1 \<and> is_set h input2 then
        (case get_value h input1 of
           Inl e \<Rightarrow> Some (Raise e h)
         | Inr x \<Rightarrow>
             (case get_value h input2 of
                Inl e \<Rightarrow> Some (Raise e h)
              | Inr y \<Rightarrow> set_wire fuel h output (operation kind x y)))
      else Some (Return () h))"
| "update fuel h (ConverterObs c) = Some (converter_update h c)"

section \<open>Building components\<close>

text \<open>
  \<^verbatim>\<open>DoubleInputGate.__init__\<close> registers the gate with both input wires;
  \<^verbatim>\<open>AndGate\<close>, \<^verbatim>\<open>OrGate\<close> and \<^verbatim>\<open>XorGate\<close> differ in \<open>operation\<close> only.
\<close>

definition new_gate :: "gate_kind \<Rightarrow> wire_ref \<Rightarrow> wire_ref \<Rightarrow> wire_ref \<Rightarrow> heap \<Rightarrow> heap" where
  "new_gate kind input1 input2 output h =
     (let g = DoubleInputGate kind input1 input2 output in
      add_observer (add_observer h input1 g) input2 g)"

definition new_display :: "string \<Rightarrow> wire_ref \<Rightarrow> heap \<Rightarrow> heap" where
  "new_display name w h = add_observer h w (Display name w)"

definition HalfAdder :: "wire_ref \<Rightarrow> wire_ref \<Rightarrow> wire_ref \<Rightarrow> wire_ref \<Rightarrow> heap \<Rightarrow> heap" where
  "HalfAdder input1 input2 output carry_out h =
     new_gate AndGate input1 input2 carry_out (new_gate XorGate input1 input2 output h)"

definition FullAdder ::
  "wire_ref \<Rightarrow> wire_ref \<Rightarrow> wire_ref \<Rightarrow> wire_ref \<Rightarrow> wire_ref \<Rightarrow> heap \<Rightarrow> heap" where
  "FullAdder input1 input2 carry_in output carry_out h =
     (let (wire1, h1) = Wire h;
          (wire2, h2) = Wire h1;
          (wire3, h3) = Wire h2;
          h4 = HalfAdder input1 input2 wire1 wire2 h3;
          h5 = HalfAdder carry_in wire1 output wire3 h4
      in new_gate OrGate wire3 wire2 carry_out h5)"

text \<open>
  The loop of \<^verbatim>\<open>build_circuit\<close>, by the number of iterations left. \<^verbatim>\<open>inputs1[i]\<close>,
  \<^verbatim>\<open>inputs2[i]\<close> and \<^verbatim>\<open>outputs[i]\<close> are the wires appended in the same iteration.
\<close>

fun build_loop ::
  "nat \<Rightarrow> wire_ref list \<Rightarrow> wire_ref list \<Rightarrow> wire_ref list \<Rightarrow> wire_ref \<Rightarrow> heap
     \<Rightarrow> (wire_ref list \<times> wire_ref list \<times> wire_ref list) \<times> heap" where
  "build_loop 0 inputs1 inputs2 outputs previous_carry h = ((inputs1, inputs2, outputs), h)"
| "build_loop (Suc k) inputs1 inputs2 outputs previous_carry h =
     (let (in1, h1) = Wire h;
          (in2, h2) = Wire h1;
          (out, h3) = Wire h2;
          (new_carry, h4) = Wire h3;
          h5 = FullAdder in1 in2 previous_carry out new_carry h4
      in build_loop k (inputs1 @ [in1]) (inputs2 @ [in2]) (outputs @ [out]) new_carry h5)"

text \<open>\<^verbatim>\<open>range(n)\<close> is empty for \<open>n \<le> 0\<close>: \<open>nat n\<close> iterations.\<close>

definition build_circuit ::
  "nat \<Rightarrow> heap \<Rightarrow> int \<Rightarrow> (wire_ref list \<times> wire_ref list \<times> wire_ref list) outcome option" where
  "build_circuit fuel h n =
     (let (first_carry, h1) = Wire h in
      case set_wire fuel h1 first_carry 0 of
        None \<Rightarrow> None
      | Some (Raise e h') \<Rightarrow> Some (Raise e h')
      | Some (Return _ h2) \<Rightarrow>
          (case build_loop (nat n) [] [] [] first_carry h2 of
             (circuit, h3) \<Rightarrow> Some (Return circuit h3)))"

section \<open>Converter and add\<close>

definition Converter :: "heap \<Rightarrow> wire_ref list \<Rightarrow> converter_ref \<times> heap" where
  "Converter h outputs =
     (let c = next_converter h;
          h1 = h\<lparr>converters := (converters h)
                  (c := \<lparr>conv_outputs = outputs, conv_result = None, conv_sign = None\<rparr>),
                next_converter := Suc c\<rparr>
      in (c, foldl (\<lambda>h' output. add_observer h' output (ConverterObs c)) h1 outputs))"

definition get_result :: "heap \<Rightarrow> converter_ref \<Rightarrow> error + int" where
  "get_result h c =
     (case conv_result (converters h c) of None \<Rightarrow> Inl AttributeError | Some r \<Rightarrow> Inr r)"

definition get_sign :: "heap \<Rightarrow> converter_ref \<Rightarrow> error + int" where
  "get_sign h c =
     (case conv_sign (converters h c) of None \<Rightarrow> Inl AttributeError | Some s \<Rightarrow> Inr s)"

text \<open>
  The loop of \<^verbatim>\<open>add\<close> over \<^verbatim>\<open>zip(inputs1, inputs2, to_binary(a, ...), to_binary(b, ...))\<close>:
  it stops with the shortest of the four lists.
\<close>

fun drive_inputs ::
  "nat \<Rightarrow> heap \<Rightarrow> wire_ref list \<Rightarrow> wire_ref list \<Rightarrow> int list \<Rightarrow> int list
     \<Rightarrow> unit outcome option" where
  "drive_inputs fuel h (input1 # inputs1) (input2 # inputs2) (dig1 # digs1) (dig2 # digs2) =
     (case set_wire fuel h input1 dig1 of
        None \<Rightarrow> None
      | Some (Raise e h') \<Rightarrow> Some (Raise e h')
      | Some (Return _ h1) \<Rightarrow>
          (case set_wire fuel h1 input2 dig2 of
             None \<Rightarrow> None
           | Some (Raise e h') \<Rightarrow> Some (Raise e h')
           | Some (Return _ h2) \<Rightarrow> drive_inputs fuel h2 inputs1 inputs2 digs1 digs2))"
| "drive_inputs fuel h _ _ _ _ = Some (Return () h)"

text \<open>
  \<^verbatim>\<open>add\<close>. The circuit is private to the call, so only the integer (or the exception)
  comes back. \<^verbatim>\<open>r.sign\<close> and \<^verbatim>\<open>r.result\<close> raise when the converter has not recorded
  them.
\<close>

definition add :: "nat \<Rightarrow> heap \<Rightarrow> int \<Rightarrow> int \<Rightarrow> int \<Rightarrow> (error + int) option" where
  "add fuel h a b num_bits =
     (case build_circuit fuel h num_bits of
        None \<Rightarrow> None
      | Some (Raise e _) \<Rightarrow> Some (Inl e)
      | Some (Return (inputs1, inputs2, outputs) h1) \<Rightarrow>
          (case Converter h1 outputs of
             (r, h2) \<Rightarrow>
               (case drive_inputs fuel h2 inputs1 inputs2
                       (to_binary a num_bits) (to_binary b num_bits) of
                  None \<Rightarrow> None
                | Some (Raise e _) \<Rightarrow> Some (Inl e)
                | Some (Return _ h3) \<Rightarrow>
                    (case get_sign h3 r of
                       Inl e \<Rightarrow> Some (Inl e)
                     | Inr s \<Rightarrow>
                         (case get_result h3 r of
                            Inl e \<Rightarrow> Some (Inl e)
                          | Inr res \<Rightarrow>
                              Some (Inr (if s = 1 then - (2 ^ nat num_bits - res) else res)))))))"

section \<open>Auxiliary notions for the proofs\<close>

text \<open>The first \<open>k\<close> binary digits of \<open>n\<close> in two's complement, least significant first.\<close>

definition bits :: "int \<Rightarrow> nat \<Rightarrow> int list" where
  "bits n k = map (\<lambda>i. of_bool (bit n i)) [0..<k]"

text \<open>
  The store a successful \<^verbatim>\<open>Converter.update\<close> leaves: the result and the sign are
  recorded when every output wire is set, and nothing changes otherwise.
\<close>

definition conv_fire :: "heap \<Rightarrow> converter_ref \<Rightarrow> heap" where
  "conv_fire h c =
     (let outputs = conv_outputs (converters h c);
          binary_list = map (\<lambda>w. the (wire_value (wires h w))) outputs
      in if list_all (is_set h) outputs
         then h\<lparr>converters := (converters h)
                 (c := (converters h c)\<lparr>conv_result := Some (from_binary binary_list),
                                         conv_sign := Some (last binary_list)\<rparr>)\<rparr>
         else h)"

text \<open>A gate that does nothing when notified: one of its inputs is not set yet.\<close>

definition dormant :: "heap \<Rightarrow> observer \<Rightarrow> bool" where
  "dormant h g =
     (case g of
        DoubleInputGate kind input1 input2 output \<Rightarrow> \<not> is_set h input1 \<or> \<not> is_set h input2
      | _ \<Rightarrow> False)"

text \<open>
  The store after the second input \<open>b\<close> of a full adder has been set to \<open>y\<close>, the first
  input holding \<open>x\<close> and the carry-in \<open>cv\<close>: the stores happen in the order of the
  cascade (\<open>b\<close>, \<open>wire1\<close>, the output and its converter, \<open>wire3\<close>, \<open>wire2\<close>, the
  carry-out).
\<close>

definition fa_fire ::
  "heap \<Rightarrow> converter_ref \<Rightarrow> wire_ref \<Rightarrow> wire_ref \<Rightarrow> wire_ref \<Rightarrow> wire_ref \<Rightarrow> wire_ref \<Rightarrow> wire_ref
     \<Rightarrow> int \<Rightarrow> int \<Rightarrow> int \<Rightarrow> heap" where
  "fa_fire h c b out cout w1 w2 w3 x y cv =
     (let s = x XOR y;
          h1 = store_value (store_value (store_value h b y) w1 s) out (cv XOR s);
          h2 = conv_fire h1 c
      in store_value (store_value (store_value h2 w3 (cv AND s)) w2 (x AND y)) cout
           ((cv AND s) OR (x AND y)))"

text \<open>
  What the wires of the ripple-carry chain carry, as functions of the digits \<open>da\<close> and
  \<open>db\<close> driven onto the inputs: the carry into adder \<open>i\<close> (the first carry is set to 0,
  a carry-out is \<^verbatim>\<open>OrGate(wire3, wire2)\<close>) and the output of adder \<open>i\<close>
  (\<^verbatim>\<open>XorGate(carry_in, wire1)\<close>).
\<close>

fun carry_bit :: "(nat \<Rightarrow> int) \<Rightarrow> (nat \<Rightarrow> int) \<Rightarrow> nat \<Rightarrow> int" where
  "carry_bit da db 0 = 0"
| "carry_bit da db (Suc i) =
     (carry_bit da db i AND (da i XOR db i)) OR (da i AND db i)"

definition sum_bit :: "(nat \<Rightarrow> int) \<Rightarrow> (nat \<Rightarrow> int) \<Rightarrow> nat \<Rightarrow> int" where
  "sum_bit da db i = carry_bit da db i XOR (da i XOR db i)"

text \<open>Binary digit \<open>i\<close> of \<open>n\<close> in two's complement.\<close>

definition digit :: "int \<Rightarrow> nat \<Rightarrow> int" where
  "digit n i = of_bool (bit n i)"

text \<open>
  The specification of \<^verbatim>\<open>add\<close> in the words of the claim: with
  \<open>s = t mod 2 ^ k\<close> taken in \<open>[0, 2 ^ k)\<close>, \<open>s\<close> when \<open>s < 2 ^ (k - 1)\<close> and
  \<open>s - 2 ^ k\<close> otherwise.
\<close>

definition wrap :: "nat \<Rightarrow> int \<Rightarrow> int" where
  "wrap k t = (let s = t mod 2 ^ k in if s < 2 ^ (k - 1) then s else s - 2 ^ k)"

text \<open>
  The addresses of the circuit that \<^verbatim>\<open>build_circuit\<close> allocates from address \<open>B\<close> on:
  the first carry at \<open>B\<close>, then seven wires for each full adder, in the order of
  allocation (the two inputs, the output, the new carry, and \<^verbatim>\<open>wire1\<close>, \<^verbatim>\<open>wire2\<close>,
  \<^verbatim>\<open>wire3\<close> inside \<^verbatim>\<open>FullAdder\<close>). \<open>cin_w B i\<close> is the carry into adder \<open>i\<close>.
\<close>

datatype wire_kind = In1 | In2 | Out | Carry | W1 | W2 | W3

fun offset :: "wire_kind \<Rightarrow> nat" where
  "offset In1 = 1"
| "offset In2 = 2"
| "offset Out = 3"
| "offset Carry = 4"
| "offset W1 = 5"
| "offset W2 = 6"
| "offset W3 = 7"

definition wire_at :: "nat \<Rightarrow> nat \<Rightarrow> wire_kind \<Rightarrow> wire_ref" where
  "wire_at B i r = B + 7 * i + offset r"

fun cin_w :: "nat \<Rightarrow> nat \<Rightarrow> wire_ref" where
  "cin_w B 0 = B"
| "cin_w B (Suc i) = wire_at B i Carry"

text \<open>The store after the first \<open>k\<close> pairs of input wires have been driven.\<close>

fun driven :: "heap \<Rightarrow> nat \<Rightarrow> converter_ref \<Rightarrow> (nat \<Rightarrow> int) \<Rightarrow> (nat \<Rightarrow> int) \<Rightarrow> nat \<Rightarrow> heap" where
  "driven h B c da db 0 = h"
| "driven h B c da db (Suc k) =
     fa_fire (store_value (driven h B c da db k) (wire_at B k In1) (da k)) c
       (wire_at B k In2) (wire_at B k Out) (wire_at B k Carry) (wire_at B k W1) (wire_at B k W2)
       (wire_at B k W3) (da k) (db k) (carry_bit da db k)"

text \<open>
  The wiring of the full adders \<open>lo, \<dots>, hi - 1\<close> of a chain at \<open>B\<close>: who observes each
  wire. \<open>obs_out\<close> is the observer list of every output wire; the last carry has no
  observer.
\<close>

definition chain :: "heap \<Rightarrow> nat \<Rightarrow> nat \<Rightarrow> nat \<Rightarrow> observer list \<Rightarrow> bool" where
  "chain h B lo hi obs_out \<longleftrightarrow>
     (\<forall>i. lo \<le> i \<and> i < hi \<longrightarrow>
        wire_observers (wires h (wire_at B i In1)) =
          [DoubleInputGate XorGate (wire_at B i In1) (wire_at B i In2) (wire_at B i W1),
           DoubleInputGate AndGate (wire_at B i In1) (wire_at B i In2) (wire_at B i W2)] \<and>
        wire_observers (wires h (wire_at B i In2)) =
          [DoubleInputGate XorGate (wire_at B i In1) (wire_at B i In2) (wire_at B i W1),
           DoubleInputGate AndGate (wire_at B i In1) (wire_at B i In2) (wire_at B i W2)] \<and>
        wire_observers (wires h (wire_at B i W1)) =
          [DoubleInputGate XorGate (cin_w B i) (wire_at B i W1) (wire_at B i Out),
           DoubleInputGate AndGate (cin_w B i) (wire_at B i W1) (wire_at B i W3)] \<and>
        wire_observers (wires h (wire_at B i W2)) =
          [DoubleInputGate OrGate (wire_at B i W3) (wire_at B i W2) (wire_at B i Carry)] \<and>
        wire_observers (wires h (wire_at B i W3)) =
          [DoubleInputGate OrGate (wire_at B i W3) (wire_at B i W2) (wire_at B i Carry)] \<and>
        wire_observers (wires h (wire_at B i Out)) = obs_out \<and>
        wire_observers (wires h (wire_at B i Carry)) =
          (if Suc i < hi
           then [DoubleInputGate XorGate (wire_at B i Carry) (wire_at B (Suc i) W1)
                   (wire_at B (Suc i) Out),
                 DoubleInputGate AndGate (wire_at B i Carry) (wire_at B (Suc i) W1)
                   (wire_at B (Suc i) W3)]
           else []))"

text \<open>
  An \<open>n\<close>-bit circuit at \<open>B\<close> observed by converter \<open>c\<close>, as \<^verbatim>\<open>add\<close> has it before it
  drives the inputs.
\<close>

definition circuit :: "heap \<Rightarrow> nat \<Rightarrow> nat \<Rightarrow> converter_ref \<Rightarrow> bool" where
  "circuit h B n c \<longleftrightarrow>
     conv_outputs (converters h c) = map (\<lambda>i. wire_at B i Out) [0..<n] \<and>
     chain h B 0 n [ConverterObs c]"

text \<open>
  The store after one iteration of the loop of \<^verbatim>\<open>build_circuit\<close>: four new wires and
  a full adder on them and on the previous carry.
\<close>

definition add_adder :: "heap \<Rightarrow> wire_ref \<Rightarrow> heap" where
  "add_adder h previous_carry =
     (let (in1, h1) = Wire h;
          (in2, h2) = Wire h1;
          (out, h3) = Wire h2;
          (new_carry, h4) = Wire h3
      in FullAdder in1 in2 previous_carry out new_carry h4)"

text \<open>
  A caller that sets wires one after the other: the calls \<^verbatim>\<open>w.set(v)\<close> for the pairs
  of the list, in order; an exception ends the sequence.
\<close>

fun set_all :: "nat \<Rightarrow> heap \<Rightarrow> (wire_ref \<times> int) list \<Rightarrow> unit outcome option" where
  "set_all fuel h [] = Some (Return () h)"
| "set_all fuel h ((w, v) # rest) =
     (case set_wire fuel h w v of
        None \<Rightarrow> None
      | Some (Raise e h') \<Rightarrow> Some (Raise e h')
      | Some (Return _ h') \<Rightarrow> set_all fuel h' rest)"

text \<open>
  The set-up of the doctest of \<^verbatim>\<open>FullAdder\<close>: five new wires and a full adder on them.
\<close>

definition fresh_full_adder ::
  "heap \<Rightarrow> (wire_ref \<times> wire_ref \<times> wire_ref \<times> wire_ref \<times> wire_ref) \<times> heap" where
  "fresh_full_adder h =
     (let (in1, h1) = Wire h;
          (in2, h2) = Wire h1;
          (carry_in, h3) = Wire h2;
          (out, h4) = Wire h3;
          (carry_out, h5) = Wire h4
      in ((in1, in2, carry_in, out, carry_out), FullAdder in1 in2 carry_in out carry_out h5))"

text \<open>The store a call leaves behind, whether it returned or raised.\<close>

fun final_heap :: "'a outcome \<Rightarrow> heap" where
  "final_heap (Return _ h) = h"
| "final_heap (Raise _ h) = h"

text \<open>
  Every value recorded in a wire is a bit. \<^verbatim>\<open>Wire.set\<close> is the only writer of
  \<^verbatim>\<open>__value\<close> and asserts it, so every store the program reaches is of this kind.
\<close>

definition binary_values :: "heap \<Rightarrow> bool" where
  "binary_values h \<longleftrightarrow> (\<forall>w v. wire_value (wires h w) = Some v \<longrightarrow> v = 0 \<or> v = 1)"

text \<open>
  The set-up of the doctest of \<^verbatim>\<open>Wire\<close>, with one display: a new wire (address 0)
  observed by \<^verbatim>\<open>Display('out', wire)\<close>.
\<close>

definition watched_wire :: heap where
  "watched_wire = (case Wire empty_heap of (w, h) \<Rightarrow> new_display ''out'' w h)"





text \<open>
  The notification of a wire's observers in the words of the specification (section 4.1:
  \<^verbatim>\<open>set\<close> "synchronously invokes every subscribed observer's reaction, in subscription
  order"): the reactions run from left to right, each on the store the one before it
  left, and the first one that raises or does not come back ends the notification. It is
  compared with \<open>notify_observers\<close>, the loop of the source.
\<close>

definition updates_in_order :: "nat \<Rightarrow> heap \<Rightarrow> observer list \<Rightarrow> unit outcome option" where
  "updates_in_order fuel h obs =
     foldl (\<lambda>so_far ob. case so_far of Some (Return _ h') \<Rightarrow> update fuel h' ob | _ \<Rightarrow> so_far)
       (Some (Return () h)) obs"


text \<open>
  No gate has wire \<open>u\<close> as its output wire: only a caller sets \<open>u\<close>, as it is for the
  input wires of a circuit.
\<close>

definition undriven :: "heap \<Rightarrow> wire_ref \<Rightarrow> bool" where
  "undriven h u \<longleftrightarrow>
     (\<forall>w kind input1 input2.
        DoubleInputGate kind input1 input2 u \<notin> set (wire_observers (wires h w)))"

section \<open>The codec\<close>

lemma bits_0: "bits n 0 = []"
  by (simp add: bits_def)

lemma bits_Suc_front: "bits n (Suc k) = (n AND 1) # bits (drop_bit 1 n) k"
proof -
  have "[0..<Suc k] = 0 # map Suc [0..<k]"
    by (metis map_Suc_upt upt_conv_Cons zero_less_Suc)
  then have "bits n (Suc k) = of_bool (bit n 0) # map (\<lambda>i. of_bool (bit n (Suc i))) [0..<k]"
    by (simp add: bits_def comp_def del: upt_Suc)
  moreover have "of_bool (bit n 0) = n AND 1"
    by (simp add: and_one_eq bit_0 mod_2_eq_odd)
  moreover have "\<And>i. bit n (Suc i) = bit (drop_bit 1 n) i"
    by (simp add: bit_Suc drop_bit_eq_div)
  ultimately show ?thesis
    by (simp add: bits_def)
qed

lemma to_binary_loop_bits:
  "to_binary_loop result n num_bits = result @ bits n (nat num_bits - length result)"
proof (induction result n num_bits rule: to_binary_loop.induct)
  case (1 result n num_bits)
  show ?case
  proof (cases "int (length result) < num_bits")
    case True
    then have "nat num_bits - length result = Suc (nat num_bits - Suc (length result))"
      by linarith
    with True 1 show ?thesis
      by (subst to_binary_loop.simps) (simp add: bits_Suc_front)
  next
    case False
    then have "nat num_bits - length result = 0" by linarith
    with False show ?thesis
      by (subst to_binary_loop.simps) (simp add: bits_0)
  qed
qed

lemma to_binary_bits: "to_binary n num_bits = bits n (nat num_bits)"
  by (simp add: to_binary_def to_binary_loop_bits)

lemma from_binary_Nil: "from_binary [] = 0"
  by (simp add: from_binary_def)

lemma from_binary_Cons:
  assumes "d \<in> {0, 1}"
  shows "from_binary (d # ds) = 2 * from_binary ds + d"
proof -
  have "push_bit 1 (from_binary ds) OR d = 2 * from_binary ds + d"
    using assms by (auto simp: or_one_eq even_or_iff)
  then show ?thesis
    by (simp add: from_binary_def)
qed

lemma and_one_bit: "(n::int) AND 1 \<in> {0, 1}"
  by (simp add: and_one_eq) presburger

lemma from_binary_bits: "from_binary (bits n k) = take_bit k n"
proof (induction k arbitrary: n)
  case 0
  show ?case by (simp add: bits_0 from_binary_Nil)
next
  case (Suc k)
  have "from_binary (bits n (Suc k)) = 2 * take_bit k (drop_bit 1 n) + (n AND 1)"
    using and_one_bit [of n] by (simp add: bits_Suc_front from_binary_Cons Suc del: insert_iff)
  also have "\<dots> = take_bit (Suc k) n"
    by (simp add: take_bit_Suc and_one_eq drop_bit_eq_div)
  finally show ?case .
qed

lemma bits_sum: "(\<Sum>i<k. bits n k ! i * 2 ^ i) = n mod 2 ^ k"
proof -
  have "(\<Sum>i<k. bits n k ! i * 2 ^ i) = (\<Sum>i = 0..<k. push_bit i (of_bool (bit n i)))"
    by (simp add: bits_def push_bit_eq_mult lessThan_atLeast0)
  then show ?thesis
    by (simp add: take_bit_sum [symmetric] take_bit_eq_mod)
qed

lemma length_bits: "length (bits n k) = k"
  by (simp add: bits_def)

lemma nth_bits: "i < k \<Longrightarrow> bits n k ! i = (n div 2 ^ i) mod 2"
  by (simp add: bits_def bit_iff_odd odd_iff_mod_2_eq_one)

lemma set_bits: "set (bits n k) \<subseteq> {0, 1}"
  by (auto simp: bits_def)

text \<open>
  Claim C2. For every integer \<open>n\<close>, negative or not, and every \<open>num_bits \<ge> 0\<close>,
  \<^verbatim>\<open>to_binary(n, num_bits)\<close> is a list of exactly \<open>num_bits\<close> digits, each 0 or 1, the
  digit at index \<open>i\<close> being binary digit \<open>i\<close> of \<open>n\<close> (least significant first), and the
  little-endian value of the list is \<open>n mod 2 ^ num_bits\<close>.
\<close>

theorem to_binary_encodes:
  "0 \<le> num_bits \<Longrightarrow>
   length (to_binary n num_bits) = nat num_bits \<and>
   set (to_binary n num_bits) \<subseteq> {0, 1} \<and>
   (\<forall>i < nat num_bits. to_binary n num_bits ! i = (n div 2 ^ i) mod 2) \<and>
   (\<Sum>i < nat num_bits. to_binary n num_bits ! i * 2 ^ i) = n mod 2 ^ nat num_bits"
  unfolding to_binary_bits
  using length_bits set_bits nth_bits bits_sum by blast

theorem to_binary_encodes_witness:
  "(0::int) \<le> 4 \<and> to_binary (- 3) 4 = [1, 0, 1, 1] \<and>
   length (to_binary (- 3) 4) = nat 4 \<and>
   (\<Sum>i < nat 4. to_binary (- 3) 4 ! i * 2 ^ i) = (- 3) mod 2 ^ nat 4"
proof -
  have h: "(0::int) \<le> 4" by simp
  have e: "to_binary (- 3) 4 = [1, 0, 1, 1]" by code_simp
  show ?thesis
    using h e to_binary_encodes [OF h, of "- 3"] by blast
qed

text \<open>
  Claim C3. For every non-negative integer \<open>v\<close> and every \<open>num_bits\<close> with
  \<open>v < 2 ^ num_bits\<close>, \<^verbatim>\<open>from_binary(to_binary(v, num_bits)) = v\<close>. (For a negative
  \<open>num_bits\<close> the bound leaves \<open>v = 0\<close> only, in Python as here.)
\<close>

theorem from_binary_to_binary:
  "0 \<le> v \<Longrightarrow> v < 2 ^ nat num_bits \<Longrightarrow> from_binary (to_binary v num_bits) = v"
  by (simp add: to_binary_bits from_binary_bits take_bit_eq_mod)

theorem from_binary_to_binary_witness:
  "(0::int) \<le> 200 \<and> (200::int) < 2 ^ nat 8 \<and> from_binary (to_binary 200 8) = 200"
proof -
  have h1: "(0::int) \<le> 200" and h2: "(200::int) < 2 ^ nat 8" by simp_all
  show ?thesis
    using h1 h2 from_binary_to_binary [OF h1 h2] by blast
qed

section \<open>Symbolic execution of one full adder\<close>

lemma wires_store_value [simp]:
  "wire_value (wires (store_value h w v) w') = (if w' = w then Some v else wire_value (wires h w'))"
  "wire_observers (wires (store_value h w v) w') = wire_observers (wires h w')"
  "converters (store_value h w v) = converters h"
  "next_wire (store_value h w v) = next_wire h"
  "next_converter (store_value h w v) = next_converter h"
  "printed (store_value h w v) = printed h"
  by (simp_all add: store_value_def)

lemma is_set_store_value [simp]:
  "is_set (store_value h w v) w' \<longleftrightarrow> w' = w \<or> is_set h w'"
  by (simp add: is_set_def)

lemma read_values_set:
  "list_all (is_set h) ws \<Longrightarrow> read_values h ws = Inr (map (\<lambda>w. the (wire_value (wires h w))) ws)"
  by (induction ws) (auto simp: is_set_def get_value_def)

lemma converter_update_fire:
  "conv_outputs (converters h c) \<noteq> [] \<Longrightarrow> converter_update h c = Return () (conv_fire h c)"
  by (auto simp: converter_update_def conv_fire_def Let_def read_values_set)

lemma conv_fire_simps [simp]:
  "wires (conv_fire h c) = wires h"
  "next_wire (conv_fire h c) = next_wire h"
  "next_converter (conv_fire h c) = next_converter h"
  "printed (conv_fire h c) = printed h"
  "conv_outputs (converters (conv_fire h c) c') = conv_outputs (converters h c')"
  by (simp_all add: conv_fire_def Let_def)

lemma is_set_conv_fire [simp]: "is_set (conv_fire h c) w = is_set h w"
  by (simp add: is_set_def)

lemma set_wire_bit:
  "v = 0 \<or> v = 1 \<Longrightarrow>
   set_wire (Suc fuel) h w v =
     notify_observers fuel (store_value h w v) (wire_observers (wires h w))"
  by auto

lemma update_gate:
  "update fuel h (DoubleInputGate kind input1 input2 output) =
     (case wire_value (wires h input1) of
        None \<Rightarrow> Some (Return () h)
      | Some x \<Rightarrow>
          (case wire_value (wires h input2) of
             None \<Rightarrow> Some (Return () h)
           | Some y \<Rightarrow> set_wire fuel h output (operation kind x y)))"
  by (simp add: is_set_def get_value_def split: option.splits)

lemma operation_bit:
  "x = 0 \<or> x = 1 \<Longrightarrow> y = 0 \<or> y = 1 \<Longrightarrow> operation kind x y = 0 \<or> operation kind x y = 1"
  by (cases kind) auto

lemma fa_first_input:
  assumes "wire_observers (wires h a) =
             [DoubleInputGate XorGate a b w1, DoubleInputGate AndGate a b w2]"
    and "wire_value (wires h b) = None" and "a \<noteq> b" and "x = 0 \<or> x = 1"
  shows "set_wire (Suc fuel) h a x = Some (Return () (store_value h a x))"
  using assms by (simp add: set_wire_bit update_gate del: set_wire.simps update.simps)

lemma notify_dormant:
  "list_all (dormant h) obs \<Longrightarrow> notify_observers fuel h obs = Some (Return () h)"
  by (induction obs) (auto simp: dormant_def split: observer.splits)

lemma fa_second_input:
  assumes dist: "distinct [a, b, cin, out, cout, w1, w2, w3]"
    and obs_b: "wire_observers (wires h b) =
             [DoubleInputGate XorGate a b w1, DoubleInputGate AndGate a b w2]"
    and obs_w1: "wire_observers (wires h w1) =
             [DoubleInputGate XorGate cin w1 out, DoubleInputGate AndGate cin w1 w3]"
    and obs_w2: "wire_observers (wires h w2) = [DoubleInputGate OrGate w3 w2 cout]"
    and obs_w3: "wire_observers (wires h w3) = [DoubleInputGate OrGate w3 w2 cout]"
    and obs_out: "wire_observers (wires h out) = [ConverterObs c]"
    and outs: "conv_outputs (converters h c) \<noteq> []"
    and va: "wire_value (wires h a) = Some x"
    and vc: "wire_value (wires h cin) = Some cv"
    and v1: "wire_value (wires h w1) = None"
    and v2: "wire_value (wires h w2) = None"
    and v3: "wire_value (wires h w3) = None"
    and bx: "x = 0 \<or> x = 1" and "by": "y = 0 \<or> y = 1" and bc: "cv = 0 \<or> cv = 1"
    and nxt: "list_all (dormant (fa_fire h c b out cout w1 w2 w3 x y cv))
                (wire_observers (wires h cout))"
  shows "set_wire (Suc (Suc (Suc fuel))) h b y =
           Some (Return () (fa_fire h c b out cout w1 w2 w3 x y cv))"
proof -
  have dist': "distinct [w3, w2, w1, cout, out, cin, b, a]"
    using dist by auto
  note dist = dist dist'
  let ?s = "x XOR y"
  let ?h1 = "store_value h b y"
  let ?h2 = "store_value ?h1 w1 ?s"
  let ?h3 = "store_value ?h2 out (cv XOR ?s)"
  let ?h4 = "conv_fire ?h3 c"
  let ?h5 = "store_value ?h4 w3 (cv AND ?s)"
  let ?h6 = "store_value ?h5 w2 (x AND y)"
  let ?h7 = "store_value ?h6 cout ((cv AND ?s) OR (x AND y))"
  have bits: "?s = 0 \<or> ?s = 1" "cv XOR ?s = 0 \<or> cv XOR ?s = 1"
    "cv AND ?s = 0 \<or> cv AND ?s = 1" "x AND y = 0 \<or> x AND y = 1"
    "(cv AND ?s) OR (x AND y) = 0 \<or> (cv AND ?s) OR (x AND y) = 1"
    using bx "by" bc by auto
  have out: "set_wire (Suc fuel) ?h2 out (cv XOR ?s) = Some (Return () ?h4)"
    using dist obs_out outs bits
    by (simp add: set_wire_bit converter_update_fire del: set_wire.simps)
  have w3: "set_wire (Suc fuel) ?h4 w3 (cv AND ?s) = Some (Return () ?h5)"
    using dist obs_w3 v2 bits
    by (simp add: set_wire_bit update_gate del: set_wire.simps update.simps)
  have w1: "set_wire (Suc (Suc fuel)) ?h1 w1 ?s = Some (Return () ?h5)"
    using dist obs_w1 vc bits out w3
    by (simp add: set_wire_bit update_gate del: set_wire.simps update.simps)
  have cout: "set_wire (Suc fuel) ?h6 cout ((cv AND ?s) OR (x AND y)) = Some (Return () ?h7)"
    using nxt bits
    by (simp add: set_wire_bit notify_dormant fa_fire_def Let_def del: set_wire.simps)
  have w2: "set_wire (Suc (Suc fuel)) ?h5 w2 (x AND y) = Some (Return () ?h7)"
    using dist obs_w2 bits cout
    by (simp add: set_wire_bit update_gate del: set_wire.simps update.simps)
  have "set_wire (Suc (Suc (Suc fuel))) h b y = Some (Return () ?h7)"
    using dist obs_b va "by" w1 w2
    by (simp add: set_wire_bit update_gate del: set_wire.simps update.simps)
  then show ?thesis
    by (simp add: fa_fire_def Let_def)
qed

section \<open>The ripple-carry chain\<close>

lemma digit_bit: "digit n i = 0 \<or> digit n i = 1"
  by (simp add: digit_def)

lemma bits_digit: "bits n k = map (digit n) [0..<k]"
  by (simp add: bits_def digit_def)

lemma carry_bit_bit:
  assumes "\<forall>i. da i = 0 \<or> da i = 1" and "\<forall>i. db i = 0 \<or> db i = 1"
  shows "carry_bit da db k = 0 \<or> carry_bit da db k = 1"
proof (induction k)
  case 0
  show ?case by simp
next
  case (Suc k)
  from assms have "da k = 0 \<or> da k = 1" "db k = 0 \<or> db k = 1" by simp_all
  with Suc show ?case by auto
qed

lemma sum_bit_bit:
  assumes "\<forall>i. da i = 0 \<or> da i = 1" and "\<forall>i. db i = 0 \<or> db i = 1"
  shows "sum_bit da db k = 0 \<or> sum_bit da db k = 1"
proof -
  from assms have "da k = 0 \<or> da k = 1" "db k = 0 \<or> db k = 1" by simp_all
  with carry_bit_bit [OF assms, where k = k] show ?thesis
    by (auto simp: sum_bit_def)
qed

lemma full_adder_arith:
  assumes "x = 0 \<or> x = 1" and "y = 0 \<or> y = 1" and "c = 0 \<or> c = (1::int)"
  shows "(c XOR (x XOR y)) + 2 * ((c AND (x XOR y)) OR (x AND y)) = x + y + c"
  using assms by auto

lemma ripple_sum:
  assumes "\<forall>i. da i = 0 \<or> da i = 1" and "\<forall>i. db i = 0 \<or> db i = 1"
  shows "(\<Sum>i<k. sum_bit da db i * 2 ^ i) + carry_bit da db k * 2 ^ k =
         (\<Sum>i<k. da i * 2 ^ i) + (\<Sum>i<k. db i * 2 ^ i)"
proof (induction k)
  case 0
  show ?case by simp
next
  case (Suc k)
  from assms have "da k = 0 \<or> da k = 1" "db k = 0 \<or> db k = 1" by simp_all
  then have fa: "sum_bit da db k + 2 * carry_bit da db (Suc k) = da k + db k + carry_bit da db k"
    unfolding sum_bit_def carry_bit.simps
    by (rule full_adder_arith [OF _ _ carry_bit_bit [OF assms]])
  have "(\<Sum>i<Suc k. sum_bit da db i * 2 ^ i) + carry_bit da db (Suc k) * 2 ^ Suc k =
        (\<Sum>i<k. sum_bit da db i * 2 ^ i) +
          (sum_bit da db k + 2 * carry_bit da db (Suc k)) * 2 ^ k"
    by (simp add: algebra_simps)
  also have "\<dots> = (\<Sum>i<k. sum_bit da db i * 2 ^ i) + carry_bit da db k * 2 ^ k
                     + (da k + db k) * 2 ^ k"
    by (simp only: fa) (simp add: algebra_simps)
  also have "\<dots> = (\<Sum>i<Suc k. da i * 2 ^ i) + (\<Sum>i<Suc k. db i * 2 ^ i)"
    by (simp only: Suc.IH) (simp add: algebra_simps)
  finally show ?case .
qed

lemma digit_sum: "(\<Sum>i<k. digit n i * 2 ^ i) = n mod 2 ^ k"
  using bits_sum [where k = k and n = n] by (simp add: bits_digit)

lemma bit_sum_bounds:
  assumes "\<forall>i. d i = 0 \<or> d i = (1::int)"
  shows "0 \<le> (\<Sum>i<k. d i * 2 ^ i) \<and> (\<Sum>i<k. d i * 2 ^ i) < 2 ^ k"
proof (induction k)
  case 0
  show ?case by simp
next
  case (Suc k)
  moreover from assms have "d k = 0 \<or> d k = 1" by simp
  ultimately show ?case by auto
qed

lemma from_binary_map:
  assumes "\<forall>i. d i = 0 \<or> d i = (1::int)"
  shows "from_binary (map d [j..<j + k]) = (\<Sum>i<k. d (j + i) * 2 ^ i)"
proof (induction k arbitrary: j)
  case 0
  show ?case by (simp add: from_binary_Nil)
next
  case (Suc k)
  have "[j..<j + Suc k] = j # [Suc j..<Suc j + k]"
    by (simp add: upt_conv_Cons del: upt_Suc)
  then have "from_binary (map d [j..<j + Suc k]) = 2 * (\<Sum>i<k. d (Suc j + i) * 2 ^ i) + d j"
    using assms Suc.IH [of "Suc j"] by (simp add: from_binary_Cons del: upt_Suc)
  also have "\<dots> = (\<Sum>i<Suc k. d (j + i) * 2 ^ i)"
    by (simp add: sum.lessThan_Suc_shift sum_distrib_left algebra_simps del: sum.lessThan_Suc)
  finally show ?case .
qed

lemma ripple_value:
  "(\<Sum>i<k. sum_bit (digit a) (digit b) i * 2 ^ i) = (a + b) mod 2 ^ k"
proof -
  let ?S = "\<Sum>i<k. sum_bit (digit a) (digit b) i * 2 ^ i"
  have "?S + carry_bit (digit a) (digit b) k * 2 ^ k = a mod 2 ^ k + b mod 2 ^ k"
    using ripple_sum [where da = "digit a" and db = "digit b" and k = k]
    by (simp add: digit_bit digit_sum)
  then have "?S mod 2 ^ k = (a mod 2 ^ k + b mod 2 ^ k) mod 2 ^ k"
    by (metis mod_mult_self1)
  moreover have "0 \<le> ?S \<and> ?S < 2 ^ k"
    by (rule bit_sum_bounds) (simp add: sum_bit_bit digit_bit)
  ultimately show ?thesis
    by (simp add: mod_add_eq)
qed

lemma wire_at_eq [simp]: "(wire_at B i r = wire_at B j s) = (i = j \<and> r = s)"
  unfolding wire_at_def by (cases r; cases s; simp; presburger)

lemma wire_at_base [simp]: "wire_at B i r \<noteq> B" "B \<noteq> wire_at B i r"
  unfolding wire_at_def by (cases r; simp)+

lemma cin_w_eq [simp]:
  "(cin_w B k = wire_at B j r) = (r = Carry \<and> k = Suc j)"
  "(wire_at B j r = cin_w B k) = (r = Carry \<and> k = Suc j)"
  by (cases k; auto)+

lemma cin_w_inj [simp]: "(cin_w B i = cin_w B j) = (i = j)"
  by (cases i; cases j) auto

lemma fa_fire_value:
  "wire_value (wires (fa_fire h c b out cout w1 w2 w3 x y cv) w) =
     (if w = cout then Some ((cv AND (x XOR y)) OR (x AND y))
      else if w = w2 then Some (x AND y)
      else if w = w3 then Some (cv AND (x XOR y))
      else if w = out then Some (cv XOR (x XOR y))
      else if w = w1 then Some (x XOR y)
      else if w = b then Some y
      else wire_value (wires h w))"
  by (simp add: fa_fire_def Let_def)

lemma fa_fire_frame [simp]:
  "wire_observers (wires (fa_fire h c b out cout w1 w2 w3 x y cv) w) = wire_observers (wires h w)"
  "conv_outputs (converters (fa_fire h c b out cout w1 w2 w3 x y cv) c') =
     conv_outputs (converters h c')"
  by (simp_all add: fa_fire_def Let_def)

lemma driven_frame [simp]:
  "wire_observers (wires (driven h B c da db k) w) = wire_observers (wires h w)"
  "conv_outputs (converters (driven h B c da db k) c') = conv_outputs (converters h c')"
  by (induction k) simp_all

lemma driven_values:
  assumes "wire_value (wires h B) = Some 0"
    and "\<forall>i r. i < n \<longrightarrow> wire_value (wires h (wire_at B i r)) = None"
  shows "k \<le> n \<Longrightarrow>
         wire_value (wires (driven h B c da db k) (cin_w B k)) = Some (carry_bit da db k) \<and>
         (\<forall>i r. k \<le> i \<and> i < n \<longrightarrow>
                wire_value (wires (driven h B c da db k) (wire_at B i r)) = None) \<and>
         (\<forall>i<k. wire_value (wires (driven h B c da db k) (wire_at B i Out)) =
                  Some (sum_bit da db i))"
proof (induction k)
  case 0
  with assms show ?case by simp
next
  case (Suc k)
  then have IH:
    "wire_value (wires (driven h B c da db k) (cin_w B k)) = Some (carry_bit da db k)"
    "\<And>i r. k \<le> i \<Longrightarrow> i < n \<Longrightarrow>
       wire_value (wires (driven h B c da db k) (wire_at B i r)) = None"
    "\<And>i. i < k \<Longrightarrow> wire_value (wires (driven h B c da db k) (wire_at B i Out)) =
                  Some (sum_bit da db i)"
    by auto
  have 1: "wire_value (wires (driven h B c da db (Suc k)) (cin_w B (Suc k))) =
             Some (carry_bit da db (Suc k))"
    by (simp add: fa_fire_value)
  have 2: "wire_value (wires (driven h B c da db (Suc k)) (wire_at B i r)) = None"
    if "Suc k \<le> i" "i < n" for i r
    using that IH(2) [of i r] by (simp add: fa_fire_value)
  have 3: "wire_value (wires (driven h B c da db (Suc k)) (wire_at B i Out)) =
             Some (sum_bit da db i)" if "i < Suc k" for i
  proof (cases "i = k")
    case True
    then show ?thesis by (simp add: fa_fire_value sum_bit_def)
  next
    case False
    with that have "i < k" by simp
    with IH(3) [of i] False show ?thesis by (simp add: fa_fire_value)
  qed
  from 1 2 3 show ?case by blast
qed

lemma is_set_fa_fire:
  "is_set (fa_fire h c b out cout w1 w2 w3 x y cv) w \<longleftrightarrow>
     w \<in> {cout, w2, w3, out, w1, b} \<or> is_set h w"
  by (auto simp: is_set_def fa_fire_value)

lemma drive_step:
  assumes circ: "circuit h B n c"
    and init: "wire_value (wires h B) = Some 0"
      "\<forall>i r. i < n \<longrightarrow> wire_value (wires h (wire_at B i r)) = None"
    and bits: "\<forall>i. da i = 0 \<or> da i = 1" "\<forall>i. db i = 0 \<or> db i = 1"
    and k: "k < n"
  shows "set_wire (Suc (Suc (Suc fuel))) (driven h B c da db k) (wire_at B k In1) (da k) =
           Some (Return () (store_value (driven h B c da db k) (wire_at B k In1) (da k)))"
    and "set_wire (Suc (Suc (Suc fuel)))
           (store_value (driven h B c da db k) (wire_at B k In1) (da k)) (wire_at B k In2) (db k) =
           Some (Return () (driven h B c da db (Suc k)))"
proof -
  let ?H = "driven h B c da db k"
  from k have kn: "k \<le> n" by simp
  note vals = driven_values [OF init kn, of c da db]
  from vals have vc: "wire_value (wires ?H (cin_w B k)) = Some (carry_bit da db k)"
    by blast
  from vals k have unset: "\<And>r. wire_value (wires ?H (wire_at B k r)) = None"
    by auto
  from circ k have obs:
    "wire_observers (wires h (wire_at B k In1)) =
          [DoubleInputGate XorGate (wire_at B k In1) (wire_at B k In2) (wire_at B k W1),
           DoubleInputGate AndGate (wire_at B k In1) (wire_at B k In2) (wire_at B k W2)]"
    "wire_observers (wires h (wire_at B k In2)) =
          [DoubleInputGate XorGate (wire_at B k In1) (wire_at B k In2) (wire_at B k W1),
           DoubleInputGate AndGate (wire_at B k In1) (wire_at B k In2) (wire_at B k W2)]"
    "wire_observers (wires h (wire_at B k W1)) =
          [DoubleInputGate XorGate (cin_w B k) (wire_at B k W1) (wire_at B k Out),
           DoubleInputGate AndGate (cin_w B k) (wire_at B k W1) (wire_at B k W3)]"
    "wire_observers (wires h (wire_at B k W2)) =
          [DoubleInputGate OrGate (wire_at B k W3) (wire_at B k W2) (wire_at B k Carry)]"
    "wire_observers (wires h (wire_at B k W3)) =
          [DoubleInputGate OrGate (wire_at B k W3) (wire_at B k W2) (wire_at B k Carry)]"
    "wire_observers (wires h (wire_at B k Out)) = [ConverterObs c]"
    "wire_observers (wires h (wire_at B k Carry)) =
          (if Suc k < n
           then [DoubleInputGate XorGate (wire_at B k Carry) (wire_at B (Suc k) W1) (wire_at B (Suc k) Out),
                 DoubleInputGate AndGate (wire_at B k Carry) (wire_at B (Suc k) W1) (wire_at B (Suc k) W3)]
           else [])"
    unfolding circuit_def chain_def by simp_all
  from circ k have outs: "conv_outputs (converters h c) \<noteq> []"
    unfolding circuit_def by auto
  from bits have bk: "da k = 0 \<or> da k = 1" "db k = 0 \<or> db k = 1" by simp_all
  show "set_wire (Suc (Suc (Suc fuel))) ?H (wire_at B k In1) (da k) =
           Some (Return () (store_value ?H (wire_at B k In1) (da k)))"
    by (rule fa_first_input [where b = "wire_at B k In2" and ?w1.0 = "wire_at B k W1"
          and ?w2.0 = "wire_at B k W2"])
       (simp_all add: obs unset bk)
  have nxt: "list_all
         (dormant (fa_fire (store_value ?H (wire_at B k In1) (da k)) c (wire_at B k In2)
            (wire_at B k Out) (wire_at B k Carry) (wire_at B k W1) (wire_at B k W2) (wire_at B k W3)
            (da k) (db k) (carry_bit da db k)))
         (wire_observers (wires (store_value ?H (wire_at B k In1) (da k)) (wire_at B k Carry)))"
  proof (cases "Suc k < n")
    case True
    with vals have "wire_value (wires ?H (wire_at B (Suc k) W1)) = None"
      by auto
    with True show ?thesis
      by (simp add: obs dormant_def is_set_fa_fire) (simp add: is_set_def)
  next
    case False
    then show ?thesis by (simp add: obs)
  qed
  have "set_wire (Suc (Suc (Suc fuel)))
           (store_value ?H (wire_at B k In1) (da k)) (wire_at B k In2) (db k) =
        Some (Return () (fa_fire (store_value ?H (wire_at B k In1) (da k)) c (wire_at B k In2)
            (wire_at B k Out) (wire_at B k Carry) (wire_at B k W1) (wire_at B k W2) (wire_at B k W3)
            (da k) (db k) (carry_bit da db k)))"
    by (rule fa_second_input [where a = "wire_at B k In1" and cin = "cin_w B k",
          OF _ _ _ _ _ _ _ _ _ _ _ _ _ _ _ nxt])
       (simp_all add: obs unset bk vc outs carry_bit_bit [OF bits])
  then show "set_wire (Suc (Suc (Suc fuel)))
           (store_value ?H (wire_at B k In1) (da k)) (wire_at B k In2) (db k) =
           Some (Return () (driven h B c da db (Suc k)))"
    by simp
qed

lemma drive_inputs_driven:
  assumes circ: "circuit h B n c"
    and init: "wire_value (wires h B) = Some 0"
      "\<forall>i r. i < n \<longrightarrow> wire_value (wires h (wire_at B i r)) = None"
    and bits: "\<forall>i. da i = 0 \<or> da i = 1" "\<forall>i. db i = 0 \<or> db i = 1"
  shows "k \<le> n \<Longrightarrow>
         drive_inputs (Suc (Suc (Suc fuel))) (driven h B c da db k)
           (map (\<lambda>i. wire_at B i In1) [k..<n]) (map (\<lambda>i. wire_at B i In2) [k..<n])
           (map da [k..<n]) (map db [k..<n]) =
         Some (Return () (driven h B c da db n))"
proof (induction "n - k" arbitrary: k)
  case 0
  then show ?case by simp
next
  case (Suc m)
  then have k: "k < n" and m: "m = n - Suc k" and le: "Suc k \<le> n" by simp_all
  from k have upt: "[k..<n] = k # [Suc k..<n]"
    by (simp add: upt_conv_Cons)
  show ?case
    unfolding upt list.map drive_inputs.simps
    by (simp only: drive_step [OF circ init bits k] Suc.hyps(1) [OF m le]
          option.case outcome.case)
qed

section \<open>What build_circuit builds\<close>

lemma build_loop_Suc:
  "build_loop (Suc k) inputs1 inputs2 outputs pc h =
     build_loop k (inputs1 @ [next_wire h]) (inputs2 @ [next_wire h + 1])
       (outputs @ [next_wire h + 2]) (next_wire h + 3) (add_adder h pc)"
  by (simp add: add_adder_def Wire_def Let_def eval_nat_numeral)

lemma add_observer_simps [simp]:
  "wire_value (wires (add_observer h w ob) w') = wire_value (wires h w')"
  "wire_observers (wires (add_observer h w ob) w') =
     (if w' = w then wire_observers (wires h w) @ [ob] else wire_observers (wires h w'))"
  "next_wire (add_observer h w ob) = next_wire h"
  "converters (add_observer h w ob) = converters h"
  "next_converter (add_observer h w ob) = next_converter h"
  "printed (add_observer h w ob) = printed h"
  by (simp_all add: add_observer_def)

lemma new_gate_simps [simp]:
  "wire_value (wires (new_gate kind i1 i2 out h) w) = wire_value (wires h w)"
  "wire_observers (wires (new_gate kind i1 i2 out h) w) =
     wire_observers (wires h w) @
       (if w = i1 then [DoubleInputGate kind i1 i2 out] else []) @
       (if w = i2 then [DoubleInputGate kind i1 i2 out] else [])"
  "next_wire (new_gate kind i1 i2 out h) = next_wire h"
  "converters (new_gate kind i1 i2 out h) = converters h"
  "next_converter (new_gate kind i1 i2 out h) = next_converter h"
  "printed (new_gate kind i1 i2 out h) = printed h"
  by (simp_all add: new_gate_def Let_def)

lemma Wire_simps [simp]:
  "fst (Wire h) = next_wire h"
  "wire_value (wires (snd (Wire h)) w) = (if w = next_wire h then None else wire_value (wires h w))"
  "wire_observers (wires (snd (Wire h)) w) =
     (if w = next_wire h then [] else wire_observers (wires h w))"
  "next_wire (snd (Wire h)) = Suc (next_wire h)"
  "converters (snd (Wire h)) = converters h"
  "next_converter (snd (Wire h)) = next_converter h"
  "printed (snd (Wire h)) = printed h"
  by (simp_all add: Wire_def)

lemma FullAdder_simps:
  "wire_value (wires (FullAdder i1 i2 cin out cout h) w) =
     (if w \<in> {next_wire h, next_wire h + 1, next_wire h + 2} then None
      else wire_value (wires h w))"
  "next_wire (FullAdder i1 i2 cin out cout h) = next_wire h + 3"
  "converters (FullAdder i1 i2 cin out cout h) = converters h"
  "next_converter (FullAdder i1 i2 cin out cout h) = next_converter h"
  "printed (FullAdder i1 i2 cin out cout h) = printed h"
  by (simp_all add: FullAdder_def HalfAdder_def Let_def case_prod_unfold)


lemmas add_adder_unfold =
  add_adder_def FullAdder_def HalfAdder_def Let_def case_prod_unfold wire_at_def

lemma add_adder_frame:
  "next_wire (add_adder h pc) = next_wire h + 7"
  "converters (add_adder h pc) = converters h"
  "next_converter (add_adder h pc) = next_converter h"
  "printed (add_adder h pc) = printed h"
  by (simp_all add: add_adder_unfold)

lemma add_adder_old:
  assumes "w < next_wire h" and "w \<noteq> pc"
  shows "wire_value (wires (add_adder h pc) w) = wire_value (wires h w)"
    and "wire_observers (wires (add_adder h pc) w) = wire_observers (wires h w)"
  using assms by (simp_all add: add_adder_unfold)

lemma add_adder_pc:
  assumes "pc < next_wire h" and "next_wire h = wire_at B i In1"
  shows "wire_value (wires (add_adder h pc) pc) = wire_value (wires h pc)"
    and "wire_observers (wires (add_adder h pc) pc) =
           wire_observers (wires h pc) @
             [DoubleInputGate XorGate pc (wire_at B i W1) (wire_at B i Out),
              DoubleInputGate AndGate pc (wire_at B i W1) (wire_at B i W3)]"
  using assms by (simp_all add: add_adder_unfold)

lemma add_adder_value:
  assumes "pc < next_wire h" and "next_wire h = wire_at B i In1"
  shows "wire_value (wires (add_adder h pc) (wire_at B i r)) = None"
  using assms by (cases r) (simp_all add: add_adder_unfold)


lemma add_adder_observers:
  assumes "pc < next_wire h" and "next_wire h = wire_at B i In1"
  shows "wire_observers (wires (add_adder h pc) (wire_at B i In1)) =
          [DoubleInputGate XorGate (wire_at B i In1) (wire_at B i In2) (wire_at B i W1),
           DoubleInputGate AndGate (wire_at B i In1) (wire_at B i In2) (wire_at B i W2)]"
    and "wire_observers (wires (add_adder h pc) (wire_at B i In2)) =
          [DoubleInputGate XorGate (wire_at B i In1) (wire_at B i In2) (wire_at B i W1),
           DoubleInputGate AndGate (wire_at B i In1) (wire_at B i In2) (wire_at B i W2)]"
    and "wire_observers (wires (add_adder h pc) (wire_at B i W1)) =
          [DoubleInputGate XorGate pc (wire_at B i W1) (wire_at B i Out),
           DoubleInputGate AndGate pc (wire_at B i W1) (wire_at B i W3)]"
    and "wire_observers (wires (add_adder h pc) (wire_at B i W2)) =
          [DoubleInputGate OrGate (wire_at B i W3) (wire_at B i W2) (wire_at B i Carry)]"
    and "wire_observers (wires (add_adder h pc) (wire_at B i W3)) =
          [DoubleInputGate OrGate (wire_at B i W3) (wire_at B i W2) (wire_at B i Carry)]"
    and "wire_observers (wires (add_adder h pc) (wire_at B i Out)) = []"
    and "wire_observers (wires (add_adder h pc) (wire_at B i Carry)) = []"
  using assms by (simp_all add: add_adder_unfold)

lemma wire_at_less: "i < j \<Longrightarrow> wire_at B i r < wire_at B j In1"
  unfolding wire_at_def by (cases r) simp_all

lemma cin_w_less: "cin_w B i < wire_at B i In1"
  by (cases i) (simp_all add: wire_at_def)

lemma wire_at_Suc_In1: "wire_at B i In1 + 7 = wire_at B (Suc i) In1"
  by (simp add: wire_at_def)

lemma build_loop_chain:
  assumes "next_wire h = wire_at B lo In1"
  shows "\<exists>h'. build_loop m inputs1 inputs2 outputs (cin_w B lo) h =
           ((inputs1 @ map (\<lambda>i. wire_at B i In1) [lo..<lo + m],
             inputs2 @ map (\<lambda>i. wire_at B i In2) [lo..<lo + m],
             outputs @ map (\<lambda>i. wire_at B i Out) [lo..<lo + m]), h') \<and>
           chain h' B lo (lo + m) [] \<and>
           (\<forall>i r. lo \<le> i \<and> i < lo + m \<longrightarrow> wire_value (wires h' (wire_at B i r)) = None) \<and>
           (\<forall>w. w < next_wire h \<and> w \<noteq> cin_w B lo \<longrightarrow>
                wire_value (wires h' w) = wire_value (wires h w) \<and>
                wire_observers (wires h' w) = wire_observers (wires h w)) \<and>
           wire_value (wires h' (cin_w B lo)) = wire_value (wires h (cin_w B lo)) \<and>
           wire_observers (wires h' (cin_w B lo)) =
             wire_observers (wires h (cin_w B lo)) @
               (if 0 < m
                then [DoubleInputGate XorGate (cin_w B lo) (wire_at B lo W1) (wire_at B lo Out),
                      DoubleInputGate AndGate (cin_w B lo) (wire_at B lo W1) (wire_at B lo W3)]
                else []) \<and>
           converters h' = converters h \<and> next_converter h' = next_converter h"
  using assms
proof (induction m arbitrary: h lo inputs1 inputs2 outputs)
  case 0
  then show ?case by (auto simp: chain_def)
next
  case (Suc m)
  let ?pc = "cin_w B lo"
  let ?h1 = "add_adder h ?pc"
  have pc: "?pc < next_wire h"
    using Suc.prems by (simp add: cin_w_less)
  note nw = Suc.prems
  have next1: "next_wire ?h1 = wire_at B (Suc lo) In1"
    using nw by (simp add: add_adder_frame wire_at_Suc_In1)
  have addr: "next_wire h + 1 = wire_at B lo In2" "next_wire h + 2 = wire_at B lo Out"
    "next_wire h + 3 = cin_w B (Suc lo)"
    using nw by (simp_all add: wire_at_def)
  from Suc.IH [OF next1, of "inputs1 @ [next_wire h]" "inputs2 @ [next_wire h + 1]"
      "outputs @ [next_wire h + 2]"]
  obtain h' where
    run: "build_loop m (inputs1 @ [next_wire h]) (inputs2 @ [next_wire h + 1])
            (outputs @ [next_wire h + 2]) (cin_w B (Suc lo)) ?h1 =
           (((inputs1 @ [next_wire h]) @ map (\<lambda>i. wire_at B i In1) [Suc lo..<Suc lo + m],
             (inputs2 @ [next_wire h + 1]) @ map (\<lambda>i. wire_at B i In2) [Suc lo..<Suc lo + m],
             (outputs @ [next_wire h + 2]) @ map (\<lambda>i. wire_at B i Out) [Suc lo..<Suc lo + m]), h')"
    and ch: "chain h' B (Suc lo) (Suc lo + m) []"
    and unset: "\<And>i r. Suc lo \<le> i \<Longrightarrow> i < Suc lo + m \<Longrightarrow>
                  wire_value (wires h' (wire_at B i r)) = None"
    and frame: "\<And>w. w < next_wire ?h1 \<Longrightarrow> w \<noteq> cin_w B (Suc lo) \<Longrightarrow>
                wire_value (wires h' w) = wire_value (wires ?h1 w) \<and>
                wire_observers (wires h' w) = wire_observers (wires ?h1 w)"
    and cval: "wire_value (wires h' (cin_w B (Suc lo))) = wire_value (wires ?h1 (cin_w B (Suc lo)))"
    and cobs: "wire_observers (wires h' (cin_w B (Suc lo))) =
             wire_observers (wires ?h1 (cin_w B (Suc lo))) @
               (if 0 < m
                then [DoubleInputGate XorGate (cin_w B (Suc lo)) (wire_at B (Suc lo) W1)
                        (wire_at B (Suc lo) Out),
                      DoubleInputGate AndGate (cin_w B (Suc lo)) (wire_at B (Suc lo) W1)
                        (wire_at B (Suc lo) W3)]
                else [])"
    and conv: "converters h' = converters ?h1" "next_converter h' = next_converter ?h1"
    by blast
  have upt: "[lo..<lo + Suc m] = lo # [Suc lo..<Suc lo + m]"
    by (simp add: upt_conv_Cons)
  have res: "build_loop (Suc m) inputs1 inputs2 outputs ?pc h =
           ((inputs1 @ map (\<lambda>i. wire_at B i In1) [lo..<lo + Suc m],
             inputs2 @ map (\<lambda>i. wire_at B i In2) [lo..<lo + Suc m],
             outputs @ map (\<lambda>i. wire_at B i Out) [lo..<lo + Suc m]), h')"
  proof -
    have e1: "build_loop (Suc m) inputs1 inputs2 outputs ?pc h =
          build_loop m (inputs1 @ [next_wire h]) (inputs2 @ [next_wire h + 1])
            (outputs @ [next_wire h + 2]) (cin_w B (Suc lo)) ?h1"
      by (simp only: build_loop_Suc addr(3))
    have l1: "(inputs1 @ [next_wire h]) @ map (\<lambda>i. wire_at B i In1) [Suc lo..<Suc lo + m] =
              inputs1 @ map (\<lambda>i. wire_at B i In1) [lo..<lo + Suc m]"
      by (simp only: upt list.map append_assoc append_Cons append_Nil nw)
    have l2: "(inputs2 @ [next_wire h + 1]) @ map (\<lambda>i. wire_at B i In2) [Suc lo..<Suc lo + m] =
              inputs2 @ map (\<lambda>i. wire_at B i In2) [lo..<lo + Suc m]"
      by (simp only: upt list.map append_assoc append_Cons append_Nil addr(1))
    have l3: "(outputs @ [next_wire h + 2]) @ map (\<lambda>i. wire_at B i Out) [Suc lo..<Suc lo + m] =
              outputs @ map (\<lambda>i. wire_at B i Out) [lo..<lo + Suc m]"
      by (simp only: upt list.map append_assoc append_Cons append_Nil addr(2))
    show ?thesis
      by (simp only: e1 run l1 l2 l3)
  qed
  have new: "wire_value (wires h' (wire_at B lo r)) = wire_value (wires ?h1 (wire_at B lo r))"
    "r \<noteq> Carry \<Longrightarrow>
       wire_observers (wires h' (wire_at B lo r)) = wire_observers (wires ?h1 (wire_at B lo r))"
    for r
  proof -
    have "wire_at B lo r < next_wire ?h1"
      by (simp add: next1 wire_at_less)
    then show "wire_value (wires h' (wire_at B lo r)) = wire_value (wires ?h1 (wire_at B lo r))"
      using frame [of "wire_at B lo r"] cval by (cases "r = Carry") simp_all
    show "wire_observers (wires h' (wire_at B lo r)) = wire_observers (wires ?h1 (wire_at B lo r))"
      if "r \<noteq> Carry"
      using frame [of "wire_at B lo r"] that \<open>wire_at B lo r < next_wire ?h1\<close> by simp
  qed
  have old: "wire_value (wires h' w) = wire_value (wires ?h1 w) \<and>
      wire_observers (wires h' w) = wire_observers (wires ?h1 w)" if "w < next_wire h" for w
  proof -
    from that have "w < next_wire ?h1" by (simp add: add_adder_frame)
    moreover from that nw have "w \<noteq> cin_w B (Suc lo)" by (simp add: wire_at_def)
    ultimately show ?thesis by (rule frame)
  qed
  have ch': "chain h' B lo (lo + Suc m) []"
    unfolding chain_def
  proof (intro allI impI)
    fix i assume i: "lo \<le> i \<and> i < lo + Suc m"
    show "wire_observers (wires h' (wire_at B i In1)) =
          [DoubleInputGate XorGate (wire_at B i In1) (wire_at B i In2) (wire_at B i W1),
           DoubleInputGate AndGate (wire_at B i In1) (wire_at B i In2) (wire_at B i W2)] \<and>
        wire_observers (wires h' (wire_at B i In2)) =
          [DoubleInputGate XorGate (wire_at B i In1) (wire_at B i In2) (wire_at B i W1),
           DoubleInputGate AndGate (wire_at B i In1) (wire_at B i In2) (wire_at B i W2)] \<and>
        wire_observers (wires h' (wire_at B i W1)) =
          [DoubleInputGate XorGate (cin_w B i) (wire_at B i W1) (wire_at B i Out),
           DoubleInputGate AndGate (cin_w B i) (wire_at B i W1) (wire_at B i W3)] \<and>
        wire_observers (wires h' (wire_at B i W2)) =
          [DoubleInputGate OrGate (wire_at B i W3) (wire_at B i W2) (wire_at B i Carry)] \<and>
        wire_observers (wires h' (wire_at B i W3)) =
          [DoubleInputGate OrGate (wire_at B i W3) (wire_at B i W2) (wire_at B i Carry)] \<and>
        wire_observers (wires h' (wire_at B i Out)) = [] \<and>
        wire_observers (wires h' (wire_at B i Carry)) =
          (if Suc i < lo + Suc m
           then [DoubleInputGate XorGate (wire_at B i Carry) (wire_at B (Suc i) W1)
                   (wire_at B (Suc i) Out),
                 DoubleInputGate AndGate (wire_at B i Carry) (wire_at B (Suc i) W1)
                   (wire_at B (Suc i) W3)]
           else [])"
    proof (cases "i = lo")
      case True
      show ?thesis
        unfolding True
        using cobs
        by (simp add: new add_adder_observers [OF pc nw])
    next
      case False
      with i have "Suc lo \<le> i \<and> i < Suc lo + m" by simp
      with ch show ?thesis
        unfolding chain_def by simp
    qed
  qed
  have unset': "wire_value (wires h' (wire_at B i r)) = None"
    if "lo \<le> i \<and> i < lo + Suc m" for i r
  proof (cases "i = lo")
    case True
    then show ?thesis by (simp add: new add_adder_value [OF pc nw])
  next
    case False
    with that show ?thesis by (simp add: unset)
  qed
  have frame': "wire_value (wires h' w) = wire_value (wires h w) \<and>
                wire_observers (wires h' w) = wire_observers (wires h w)"
    if "w < next_wire h \<and> w \<noteq> ?pc" for w
    using that old [of w] by (simp add: add_adder_old)
  have pcv: "wire_value (wires h' ?pc) = wire_value (wires h ?pc)"
    using old [OF pc] by (simp add: add_adder_pc [OF pc nw])
  have pco: "wire_observers (wires h' ?pc) =
             wire_observers (wires h ?pc) @
                [DoubleInputGate XorGate ?pc (wire_at B lo W1) (wire_at B lo Out),
                 DoubleInputGate AndGate ?pc (wire_at B lo W1) (wire_at B lo W3)]"
    using old [OF pc] by (simp add: add_adder_pc [OF pc nw])
  from res ch' unset' frame' pcv pco conv show ?case
    by (simp add: add_adder_frame)
qed

lemma build_circuit_chain:
  "\<exists>h1. build_circuit (Suc fuel) h (int n) =
           Some (Return (map (\<lambda>i. wire_at (next_wire h) i In1) [0..<n],
                         map (\<lambda>i. wire_at (next_wire h) i In2) [0..<n],
                         map (\<lambda>i. wire_at (next_wire h) i Out) [0..<n]) h1) \<and>
        chain h1 (next_wire h) 0 n [] \<and>
        wire_value (wires h1 (next_wire h)) = Some 0 \<and>
        (\<forall>i r. i < n \<longrightarrow> wire_value (wires h1 (wire_at (next_wire h) i r)) = None) \<and>
        converters h1 = converters h \<and> next_converter h1 = next_converter h"
proof -
  let ?B = "next_wire h"
  let ?h2 = "store_value (snd (Wire h)) ?B 0"
  have nw: "next_wire ?h2 = wire_at ?B 0 In1"
    by (simp add: wire_at_def)
  from build_loop_chain [OF nw, of n "[]" "[]" "[]"]
  obtain h1 where
    run: "build_loop n [] [] [] ?B ?h2 =
           ((map (\<lambda>i. wire_at ?B i In1) [0..<n], map (\<lambda>i. wire_at ?B i In2) [0..<n],
             map (\<lambda>i. wire_at ?B i Out) [0..<n]), h1)"
    and ch: "chain h1 ?B 0 n []"
    and unset: "\<forall>i r. i < n \<longrightarrow> wire_value (wires h1 (wire_at ?B i r)) = None"
    and cv: "wire_value (wires h1 ?B) = wire_value (wires ?h2 ?B)"
    and conv: "converters h1 = converters ?h2" "next_converter h1 = next_converter ?h2"
    by auto
  have set0: "set_wire (Suc fuel) (snd (Wire h)) ?B 0 = Some (Return () ?h2)"
    by simp
  have "build_circuit (Suc fuel) h (int n) =
           Some (Return (map (\<lambda>i. wire_at ?B i In1) [0..<n],
                         map (\<lambda>i. wire_at ?B i In2) [0..<n],
                         map (\<lambda>i. wire_at ?B i Out) [0..<n]) h1)"
    unfolding build_circuit_def using set0 run
    by (simp add: case_prod_unfold del: set_wire.simps)
  with ch unset cv conv show ?thesis
    by simp
qed

lemma foldl_add_observer:
  "wire_value (wires (foldl (\<lambda>h' w. add_observer h' w ob) h ws) w) = wire_value (wires h w)"
  "distinct ws \<Longrightarrow>
     wire_observers (wires (foldl (\<lambda>h' w. add_observer h' w ob) h ws) w) =
       wire_observers (wires h w) @ (if w \<in> set ws then [ob] else [])"
  "converters (foldl (\<lambda>h' w. add_observer h' w ob) h ws) = converters h"
  "next_converter (foldl (\<lambda>h' w. add_observer h' w ob) h ws) = next_converter h"
  "next_wire (foldl (\<lambda>h' w. add_observer h' w ob) h ws) = next_wire h"
  by (induction ws arbitrary: h) auto

lemma distinct_outs: "distinct (map (\<lambda>i. wire_at B i r) [0..<n])"
  by (simp add: distinct_map inj_on_def)

lemma Converter_circuit:
  assumes "chain h B 0 n []"
  shows "fst (Converter h (map (\<lambda>i. wire_at B i Out) [0..<n])) = next_converter h"
    and "circuit (snd (Converter h (map (\<lambda>i. wire_at B i Out) [0..<n]))) B n (next_converter h)"
    and "wire_value (wires (snd (Converter h (map (\<lambda>i. wire_at B i Out) [0..<n]))) w) =
           wire_value (wires h w)"
proof -
  let ?outs = "map (\<lambda>i. wire_at B i Out) [0..<n]"
  show "fst (Converter h ?outs) = next_converter h"
    by (simp add: Converter_def Let_def)
  show "wire_value (wires (snd (Converter h ?outs)) w) = wire_value (wires h w)"
    by (simp add: Converter_def Let_def foldl_add_observer)
  have obs: "wire_observers (wires (snd (Converter h ?outs)) w) =
          wire_observers (wires h w) @
            (if w \<in> set ?outs then [ConverterObs (next_converter h)] else [])" for w
    by (simp add: Converter_def Let_def foldl_add_observer(2) [OF distinct_outs])
  have mem: "wire_at B i r \<in> set ?outs \<longleftrightarrow> r = Out \<and> i < n" for i r
    by auto
  have obs_at: "wire_observers (wires (snd (Converter h ?outs)) (wire_at B i r)) =
          wire_observers (wires h (wire_at B i r)) @
            (if r = Out \<and> i < n then [ConverterObs (next_converter h)] else [])" for i r
    unfolding obs mem ..
  have outs: "conv_outputs (converters (snd (Converter h ?outs)) (next_converter h)) = ?outs"
    by (simp add: Converter_def Let_def foldl_add_observer)
  show "circuit (snd (Converter h ?outs)) B n (next_converter h)"
    using assms unfolding circuit_def chain_def
    by (simp add: obs_at outs)
qed


lemma conv_fire_result:
  assumes "list_all (is_set h) (conv_outputs (converters h c))"
  shows "conv_result (converters (conv_fire h c) c) =
           Some (from_binary (map (\<lambda>w. the (wire_value (wires h w))) (conv_outputs (converters h c))))"
    and "conv_sign (converters (conv_fire h c) c) =
           Some (last (map (\<lambda>w. the (wire_value (wires h w))) (conv_outputs (converters h c))))"
  using assms by (simp_all add: conv_fire_def Let_def)

lemma fa_fire_converters:
  "converters (fa_fire h c b out cout w1 w2 w3 x y cv) =
     converters (conv_fire (store_value (store_value (store_value h b y) w1 (x XOR y)) out
        (cv XOR (x XOR y))) c)"
  by (simp add: fa_fire_def Let_def)

lemma driven_result:
  assumes circ: "circuit h B (Suc m) c"
    and init: "wire_value (wires h B) = Some 0"
      "\<forall>i r. i < Suc m \<longrightarrow> wire_value (wires h (wire_at B i r)) = None"
  shows "conv_result (converters (driven h B c da db (Suc m)) c) =
           Some (from_binary (map (sum_bit da db) [0..<Suc m]))"
    and "conv_sign (converters (driven h B c da db (Suc m)) c) = Some (sum_bit da db m)"
    and "list_all (is_set (driven h B c da db (Suc m))) (map (\<lambda>i. wire_at B i Out) [0..<Suc m])"
proof -
  let ?D = "driven h B c da db m"
  let ?H = "store_value (store_value (store_value (store_value ?D (wire_at B m In1) (da m))
              (wire_at B m In2) (db m)) (wire_at B m W1) (da m XOR db m)) (wire_at B m Out)
              (carry_bit da db m XOR (da m XOR db m))"
  let ?outs = "map (\<lambda>i. wire_at B i Out) [0..<Suc m]"
  note vals = driven_values [OF init, of m c da db]
  have outs: "conv_outputs (converters ?H c) = ?outs"
    using circ by (simp add: circuit_def del: upt_Suc)
  have val: "wire_value (wires ?H (wire_at B i Out)) = Some (sum_bit da db i)" if "i < Suc m" for i
  proof (cases "i = m")
    case True
    then show ?thesis by (simp add: sum_bit_def)
  next
    case False
    with that have "i < m" by simp
    with vals show ?thesis by simp
  qed
  then have all_set: "list_all (is_set ?H) (conv_outputs (converters ?H c))"
    unfolding outs by (simp add: list_all_iff is_set_def del: upt_Suc)
  have read: "map (\<lambda>w. the (wire_value (wires ?H w))) ?outs = map (sum_bit da db) [0..<Suc m]"
    using val by (simp del: upt_Suc)
  have conv: "converters (driven h B c da db (Suc m)) = converters (conv_fire ?H c)"
    by (simp add: fa_fire_converters)
  show "conv_result (converters (driven h B c da db (Suc m)) c) =
           Some (from_binary (map (sum_bit da db) [0..<Suc m]))"
    unfolding conv conv_fire_result(1) [OF all_set] outs read ..
  show "conv_sign (converters (driven h B c da db (Suc m)) c) = Some (sum_bit da db m)"
    unfolding conv conv_fire_result(2) [OF all_set] outs read by simp
  have "wire_value (wires (driven h B c da db (Suc m)) (wire_at B i Out)) = Some (sum_bit da db i)"
    if "i < Suc m" for i
    using driven_values [OF init, of "Suc m" c da db] that by simp
  then show "list_all (is_set (driven h B c da db (Suc m))) ?outs"
    by (simp add: list_all_iff is_set_def del: upt_Suc driven.simps)
qed


lemma driven_inputs_set:
  "i < k \<Longrightarrow> is_set (driven h B c da db k) (wire_at B i In1) \<and>
            is_set (driven h B c da db k) (wire_at B i In2)"
proof (induction k)
  case 0
  then show ?case by simp
next
  case (Suc k)
  then show ?case
    by (cases "i = k") (simp_all add: is_set_fa_fire)
qed

lemma circuit_run:
  fixes h :: heap and m :: nat and a b :: int
  defines "B \<equiv> next_wire h" and "c \<equiv> next_converter h"
  defines "inputs1 \<equiv> map (\<lambda>i. wire_at B i In1) [0..<Suc m]"
    and "inputs2 \<equiv> map (\<lambda>i. wire_at B i In2) [0..<Suc m]"
    and "outputs \<equiv> map (\<lambda>i. wire_at B i Out) [0..<Suc m]"
  shows "\<exists>h1 h2.
           build_circuit (Suc (Suc (Suc fuel))) h (int (Suc m)) =
             Some (Return (inputs1, inputs2, outputs) h1) \<and>
           Converter h1 outputs = (c, h2) \<and>
           drive_inputs (Suc (Suc (Suc fuel))) h2 inputs1 inputs2
               (to_binary a (int (Suc m))) (to_binary b (int (Suc m))) =
             Some (Return () (driven h2 B c (digit a) (digit b) (Suc m))) \<and>
           circuit h2 B (Suc m) c \<and>
           wire_value (wires h2 B) = Some 0 \<and>
           (\<forall>i r. i < Suc m \<longrightarrow> wire_value (wires h2 (wire_at B i r)) = None)"
proof -
  from build_circuit_chain [of "Suc (Suc fuel)" h "Suc m"]
  obtain h1 where
    build: "build_circuit (Suc (Suc (Suc fuel))) h (int (Suc m)) =
             Some (Return (inputs1, inputs2, outputs) h1)"
    and ch: "chain h1 B 0 (Suc m) []"
    and c0: "wire_value (wires h1 B) = Some 0"
    and unset: "\<forall>i r. i < Suc m \<longrightarrow> wire_value (wires h1 (wire_at B i r)) = None"
    and nc: "next_converter h1 = next_converter h"
    unfolding B_def inputs1_def inputs2_def outputs_def by blast
  let ?h2 = "snd (Converter h1 outputs)"
  note conv = Converter_circuit [OF ch, folded outputs_def, unfolded nc, folded c_def]
  have pair: "Converter h1 outputs = (c, ?h2)"
    using conv(1) by (simp add: prod_eq_iff)
  have circ: "circuit ?h2 B (Suc m) c"
    by (rule conv(2))
  have init: "wire_value (wires ?h2 B) = Some 0"
    "\<forall>i r. i < Suc m \<longrightarrow> wire_value (wires ?h2 (wire_at B i r)) = None"
    using c0 unset by (simp_all add: conv(3))
  have bits: "\<forall>i. digit a i = 0 \<or> digit a i = 1" "\<forall>i. digit b i = 0 \<or> digit b i = 1"
    by (simp_all add: digit_bit)
  have "drive_inputs (Suc (Suc (Suc fuel))) (driven ?h2 B c (digit a) (digit b) 0)
           (map (\<lambda>i. wire_at B i In1) [0..<Suc m]) (map (\<lambda>i. wire_at B i In2) [0..<Suc m])
           (map (digit a) [0..<Suc m]) (map (digit b) [0..<Suc m]) =
         Some (Return () (driven ?h2 B c (digit a) (digit b) (Suc m)))"
    by (rule drive_inputs_driven [OF circ init bits]) simp
  then have drive: "drive_inputs (Suc (Suc (Suc fuel))) ?h2 inputs1 inputs2
               (to_binary a (int (Suc m))) (to_binary b (int (Suc m))) =
             Some (Return () (driven ?h2 B c (digit a) (digit b) (Suc m)))"
    by (simp only: driven.simps(1) inputs1_def inputs2_def to_binary_bits bits_digit nat_int)
  from build pair drive circ init show ?thesis
    by blast
qed

lemma sign_bit_wrap:
  assumes "\<forall>i. d i = 0 \<or> d i = (1::int)"
  shows "(if d m = 1 then - (2 ^ Suc m - (\<Sum>i<Suc m. d i * 2 ^ i)) else (\<Sum>i<Suc m. d i * 2 ^ i)) =
         (let s = (\<Sum>i<Suc m. d i * 2 ^ i) in if s < 2 ^ (Suc m - 1) then s else s - 2 ^ Suc m)"
proof -
  from assms have "d m = 0 \<or> d m = 1" by simp
  moreover have "0 \<le> (\<Sum>i<m. d i * 2 ^ i) \<and> (\<Sum>i<m. d i * 2 ^ i) < 2 ^ m"
    by (rule bit_sum_bounds [OF assms])
  ultimately show ?thesis
    by (auto simp: Let_def)
qed

lemma add_wrap:
  "add (Suc (Suc (Suc fuel))) h a b (int (Suc m)) = Some (Inr (wrap (Suc m) (a + b)))"
proof -
  let ?B = "next_wire h" and ?c = "next_converter h"
  let ?da = "digit a" and ?db = "digit b"
  from circuit_run [of fuel h m a b]
  obtain h1 h2 where
    build: "build_circuit (Suc (Suc (Suc fuel))) h (int (Suc m)) =
             Some (Return (map (\<lambda>i. wire_at ?B i In1) [0..<Suc m],
                           map (\<lambda>i. wire_at ?B i In2) [0..<Suc m],
                           map (\<lambda>i. wire_at ?B i Out) [0..<Suc m]) h1)"
    and conv: "Converter h1 (map (\<lambda>i. wire_at ?B i Out) [0..<Suc m]) = (?c, h2)"
    and drive: "drive_inputs (Suc (Suc (Suc fuel))) h2
                  (map (\<lambda>i. wire_at ?B i In1) [0..<Suc m])
                  (map (\<lambda>i. wire_at ?B i In2) [0..<Suc m])
                  (to_binary a (int (Suc m))) (to_binary b (int (Suc m))) =
             Some (Return () (driven h2 ?B ?c ?da ?db (Suc m)))"
    and circ: "circuit h2 ?B (Suc m) ?c"
    and init: "wire_value (wires h2 ?B) = Some 0"
      "\<forall>i r. i < Suc m \<longrightarrow> wire_value (wires h2 (wire_at ?B i r)) = None"
    by blast
  let ?S = "\<Sum>i<Suc m. sum_bit ?da ?db i * 2 ^ i"
  have sb: "\<forall>i. sum_bit ?da ?db i = 0 \<or> sum_bit ?da ?db i = 1"
    by (simp add: sum_bit_bit digit_bit)
  have "from_binary (map (sum_bit ?da ?db) [0..<0 + Suc m]) = (\<Sum>i<Suc m. sum_bit ?da ?db (0 + i) * 2 ^ i)"
    by (rule from_binary_map [OF sb])
  then have fb: "from_binary (map (sum_bit ?da ?db) [0..<Suc m]) = ?S"
    by simp
  have res: "get_result (driven h2 ?B ?c ?da ?db (Suc m)) ?c = Inr ?S"
    unfolding get_result_def driven_result(1) [OF circ init] fb by simp
  have sign: "get_sign (driven h2 ?B ?c ?da ?db (Suc m)) ?c = Inr (sum_bit ?da ?db m)"
    unfolding get_sign_def driven_result(2) [OF circ init] by simp
  have "add (Suc (Suc (Suc fuel))) h a b (int (Suc m)) =
        Some (Inr (if sum_bit ?da ?db m = 1 then - (2 ^ Suc m - ?S) else ?S))"
    by (simp only: add_def build conv drive res sign
          option.case outcome.case prod.case sum.case nat_int)
  also have "(if sum_bit ?da ?db m = 1 then - (2 ^ Suc m - ?S) else ?S) =
             (let s = ?S in if s < 2 ^ (Suc m - 1) then s else s - 2 ^ Suc m)"
    by (rule sign_bit_wrap [OF sb])
  also have "\<dots> = wrap (Suc m) (a + b)"
    unfolding wrap_def ripple_value ..
  finally show ?thesis .
qed

section \<open>The addition\<close>

lemma wrap_mod: "wrap k t mod 2 ^ k = t mod 2 ^ k"
  by (simp add: wrap_def Let_def)

lemma wrap_bounds:
  assumes "0 < k"
  shows "- (2 ^ (k - 1)) \<le> wrap k t" and "wrap k t \<le> 2 ^ (k - 1) - 1"
proof -
  from assms obtain m where k: "k = Suc m" by (cases k) auto
  define s where "s = t mod 2 ^ Suc m"
  have s: "0 \<le> s" "s < 2 * 2 ^ m" by (simp_all add: s_def)
  have w: "wrap (Suc m) t = (if s < 2 ^ m then s else s - 2 * 2 ^ m)"
    by (simp add: wrap_def Let_def s_def)
  from s show "- (2 ^ (k - 1)) \<le> wrap k t" and "wrap k t \<le> 2 ^ (k - 1) - 1"
    unfolding k w by auto
qed

lemma window_unique:
  fixes r r' :: int
  assumes "0 < k" and "r mod 2 ^ k = r' mod 2 ^ k"
    and "- (2 ^ (k - 1)) \<le> r" "r \<le> 2 ^ (k - 1) - 1"
    and "- (2 ^ (k - 1)) \<le> r'" "r' \<le> 2 ^ (k - 1) - 1"
  shows "r = r'"
proof -
  from assms(1) obtain m where k: "k = Suc m" by (cases k) auto
  have "(r + 2 ^ m) mod 2 ^ k = (r' + 2 ^ m) mod 2 ^ k"
    using assms(2) by (metis mod_add_left_eq)
  moreover have "0 \<le> r + 2 ^ m" "r + 2 ^ m < 2 ^ k" "0 \<le> r' + 2 ^ m" "r' + 2 ^ m < 2 ^ k"
    using assms(3-6) unfolding k by simp_all
  ultimately have "r + 2 ^ m = r' + 2 ^ m"
    by simp
  then show ?thesis by simp
qed

lemma add_wrap_general:
  assumes "1 \<le> num_bits" and "3 \<le> fuel"
  shows "add fuel h a b num_bits = Some (Inr (wrap (nat num_bits) (a + b)))"
proof -
  define m where "m = nat num_bits - 1"
  define f where "f = fuel - 3"
  have n: "num_bits = int (Suc m)"
    using assms(1) unfolding m_def by linarith
  have f: "fuel = Suc (Suc (Suc f))"
    using assms(2) unfolding f_def by linarith
  show ?thesis
    unfolding n f nat_int by (rule add_wrap)
qed

text \<open>
  Claim C1. For all integers \<open>a\<close> and \<open>b\<close> and every \<open>num_bits \<ge> 1\<close>,
  \<^verbatim>\<open>add(a, b, num_bits)\<close> returns (given the three nested \<^verbatim>\<open>set\<close> calls the cascade
  of one full adder needs) the integer \<open>r\<close> that is \<open>s = (a + b) mod 2 ^ num_bits\<close> when
  \<open>s < 2 ^ (num_bits - 1)\<close> and \<open>s - 2 ^ num_bits\<close> otherwise; \<open>r\<close> is congruent to
  \<open>a + b\<close> modulo \<open>2 ^ num_bits\<close>, lies in \<open>[-2 ^ (num_bits - 1), 2 ^ (num_bits - 1) - 1]\<close>,
  and is the only integer with these two properties.
\<close>

theorem add_twos_complement:
  assumes "1 \<le> num_bits" and "3 \<le> fuel"
  shows "\<exists>r. add fuel h a b num_bits = Some (Inr r) \<and>
           r = (let s = (a + b) mod 2 ^ nat num_bits
                in if s < 2 ^ (nat num_bits - 1) then s else s - 2 ^ nat num_bits) \<and>
           r mod 2 ^ nat num_bits = (a + b) mod 2 ^ nat num_bits \<and>
           - (2 ^ (nat num_bits - 1)) \<le> r \<and> r \<le> 2 ^ (nat num_bits - 1) - 1 \<and>
           (\<forall>r'. r' mod 2 ^ nat num_bits = (a + b) mod 2 ^ nat num_bits \<and>
                 - (2 ^ (nat num_bits - 1)) \<le> r' \<and> r' \<le> 2 ^ (nat num_bits - 1) - 1
                 \<longrightarrow> r' = r)"
proof -
  let ?k = "nat num_bits"
  let ?r = "wrap ?k (a + b)"
  from assms(1) have pos: "0 < ?k" by simp
  have run: "add fuel h a b num_bits = Some (Inr ?r)"
    by (rule add_wrap_general [OF assms])
  have uniq: "\<forall>r'. r' mod 2 ^ ?k = (a + b) mod 2 ^ ?k \<and>
        - (2 ^ (?k - 1)) \<le> r' \<and> r' \<le> 2 ^ (?k - 1) - 1 \<longrightarrow> r' = ?r"
  proof (intro allI impI)
    fix r' :: int
    assume "r' mod 2 ^ ?k = (a + b) mod 2 ^ ?k \<and>
        - (2 ^ (?k - 1)) \<le> r' \<and> r' \<le> 2 ^ (?k - 1) - 1"
    then have "r' mod 2 ^ ?k = ?r mod 2 ^ ?k"
      and "- (2 ^ (?k - 1)) \<le> r'" and "r' \<le> 2 ^ (?k - 1) - 1"
      by (simp_all only: wrap_mod)
    then show "r' = ?r"
      using wrap_bounds [OF pos, of "a + b"]
      by (rule window_unique [OF pos])
  qed
  have closed: "?r = (let s = (a + b) mod 2 ^ ?k
                in if s < 2 ^ (?k - 1) then s else s - 2 ^ ?k)"
    by (simp only: wrap_def)
  show ?thesis
    using run closed wrap_mod [of ?k "a + b"] wrap_bounds [OF pos, of "a + b"] uniq
    by blast
qed

theorem add_twos_complement_witness:
  "(1::int) \<le> 8 \<and> (3::nat) \<le> 3 \<and> add 3 empty_heap 100 200 8 = Some (Inr 44) \<and>
   (44::int) mod 2 ^ nat 8 = (100 + 200) mod 2 ^ nat 8"
proof -
  have h1: "(1::int) \<le> 8" and h2: "(3::nat) \<le> 3" by simp_all
  from add_twos_complement [OF h1 h2, of empty_heap 100 200]
  obtain r where "add 3 empty_heap 100 200 8 = Some (Inr r)"
    and "r = (let s = (100 + 200) mod 2 ^ nat 8
              in if s < 2 ^ (nat 8 - 1) then s else s - 2 ^ nat 8)"
    by blast
  moreover from this(2) have "r = 44" by (simp add: Let_def)
  ultimately show ?thesis by simp
qed

text \<open>
  Claim C9. \<^verbatim>\<open>add\<close> is commutative: for all integers \<open>a\<close> and \<open>b\<close> and every
  \<open>num_bits \<ge> 1\<close>, \<^verbatim>\<open>add(a, b, num_bits)\<close> and \<^verbatim>\<open>add(b, a, num_bits)\<close> return the same
  integer.
\<close>

theorem add_commutative:
  assumes "1 \<le> num_bits" and "3 \<le> fuel"
  shows "\<exists>r. add fuel h a b num_bits = Some (Inr r) \<and> add fuel h b a num_bits = Some (Inr r)"
  by (simp add: add_wrap_general [OF assms] add.commute)

theorem add_commutative_witness:
  "(1::int) \<le> 8 \<and> (3::nat) \<le> 3 \<and>
   (\<exists>r. add 3 empty_heap 127 128 8 = Some (Inr r) \<and> add 3 empty_heap 128 127 8 = Some (Inr r))"
proof -
  have h1: "(1::int) \<le> 8" and h2: "(3::nat) \<le> 3" by simp_all
  show ?thesis
    using h1 h2 add_commutative [OF h1 h2, of empty_heap 127 128] by blast
qed

text \<open>
  Claim C10. Zero is an identity on the values that fit: for every \<open>num_bits \<ge> 1\<close> and
  every integer \<open>a\<close> with \<open>-2 ^ (num_bits - 1) \<le> a \<le> 2 ^ (num_bits - 1) - 1\<close>,
  \<^verbatim>\<open>add(a, 0, num_bits)\<close> returns \<open>a\<close>.
\<close>

theorem add_zero_identity:
  assumes "1 \<le> num_bits" and "3 \<le> fuel"
    and "- (2 ^ (nat num_bits - 1)) \<le> a" and "a \<le> 2 ^ (nat num_bits - 1) - 1"
  shows "add fuel h a 0 num_bits = Some (Inr a)"
proof -
  from assms(1) have pos: "0 < nat num_bits" by simp
  have "wrap (nat num_bits) a = a"
    using wrap_mod [of "nat num_bits" a] wrap_bounds [OF pos, of a] assms(3,4)
    by (rule window_unique [OF pos])
  then show ?thesis
    by (simp add: add_wrap_general [OF assms(1,2)])
qed

theorem add_zero_identity_witness:
  "(1::int) \<le> 8 \<and> (3::nat) \<le> 3 \<and> - (2 ^ (nat 8 - 1)) \<le> (- 128::int) \<and>
   (- 128::int) \<le> 2 ^ (nat 8 - 1) - 1 \<and> add 3 empty_heap (- 128) 0 8 = Some (Inr (- 128))"
proof -
  have h1: "(1::int) \<le> 8" and h2: "(3::nat) \<le> 3"
    and h3: "- (2 ^ (nat 8 - 1)) \<le> (- 128::int)" and h4: "(- 128::int) \<le> 2 ^ (nat 8 - 1) - 1"
    by simp_all
  show ?thesis
    using h1 h2 h3 h4 add_zero_identity [OF h1 h2 h3 h4, of empty_heap] by blast
qed

section \<open>Completion\<close>

text \<open>
  Claim C5. For every \<open>num_bits \<ge> 1\<close> and all integers \<open>a\<close> and \<open>b\<close>: the circuit of
  \<^verbatim>\<open>build_circuit(num_bits)\<close> has \<open>num_bits\<close> wires in each of its three lists, the loop of
  \<^verbatim>\<open>add\<close> over them returns, and in the store it leaves every input wire and every
  output wire is set and the converter's \<^verbatim>\<open>result\<close> and \<^verbatim>\<open>sign\<close> are read without error.
\<close>

theorem outputs_settle:
  assumes "1 \<le> num_bits" and "3 \<le> fuel"
  shows "\<exists>inputs1 inputs2 outputs h1 r h2 h3.
           build_circuit fuel h num_bits = Some (Return (inputs1, inputs2, outputs) h1) \<and>
           length inputs1 = nat num_bits \<and> length inputs2 = nat num_bits \<and>
           length outputs = nat num_bits \<and>
           Converter h1 outputs = (r, h2) \<and>
           drive_inputs fuel h2 inputs1 inputs2 (to_binary a num_bits) (to_binary b num_bits) =
             Some (Return () h3) \<and>
           list_all (is_set h3) inputs1 \<and> list_all (is_set h3) inputs2 \<and>
           list_all (is_set h3) outputs \<and>
           (\<exists>res. get_result h3 r = Inr res) \<and> (\<exists>s. get_sign h3 r = Inr s)"
proof -
  define m where "m = nat num_bits - 1"
  define f where "f = fuel - 3"
  have n: "num_bits = int (Suc m)"
    using assms(1) unfolding m_def by linarith
  have f: "fuel = Suc (Suc (Suc f))"
    using assms(2) unfolding f_def by linarith
  let ?B = "next_wire h" and ?c = "next_converter h"
  let ?in1 = "map (\<lambda>i. wire_at ?B i In1) [0..<Suc m]"
  let ?in2 = "map (\<lambda>i. wire_at ?B i In2) [0..<Suc m]"
  let ?out = "map (\<lambda>i. wire_at ?B i Out) [0..<Suc m]"
  from circuit_run [of f h m a b]
  obtain h1 h2 where
    build: "build_circuit fuel h num_bits = Some (Return (?in1, ?in2, ?out) h1)"
    and conv: "Converter h1 ?out = (?c, h2)"
    and drive: "drive_inputs fuel h2 ?in1 ?in2 (to_binary a num_bits) (to_binary b num_bits) =
             Some (Return () (driven h2 ?B ?c (digit a) (digit b) (Suc m)))"
    and circ: "circuit h2 ?B (Suc m) ?c"
    and init: "wire_value (wires h2 ?B) = Some 0"
      "\<forall>i r. i < Suc m \<longrightarrow> wire_value (wires h2 (wire_at ?B i r)) = None"
    unfolding n f by blast
  let ?h3 = "driven h2 ?B ?c (digit a) (digit b) (Suc m)"
  have len: "length ?in1 = nat num_bits" "length ?in2 = nat num_bits" "length ?out = nat num_bits"
    unfolding n by simp_all
  have ins: "list_all (is_set ?h3) ?in1" "list_all (is_set ?h3) ?in2"
    using driven_inputs_set [of _ "Suc m" h2 ?B ?c "digit a" "digit b"]
    by (simp_all add: list_all_iff del: upt_Suc driven.simps)
  have outs: "list_all (is_set ?h3) ?out"
    by (rule driven_result(3) [OF circ init])
  have res: "\<exists>res. get_result ?h3 ?c = Inr res"
    unfolding get_result_def driven_result(1) [OF circ init] by simp
  have sign: "\<exists>s. get_sign ?h3 ?c = Inr s"
    unfolding get_sign_def driven_result(2) [OF circ init] by simp
  from build len conv drive ins outs res sign show ?thesis
    by blast
qed

theorem outputs_settle_witness:
  "(1::int) \<le> 2 \<and> (3::nat) \<le> 3 \<and>
   (\<exists>inputs1 inputs2 outputs h1 r h2 h3.
           build_circuit 3 empty_heap 2 = Some (Return (inputs1, inputs2, outputs) h1) \<and>
           length outputs = nat 2 \<and>
           Converter h1 outputs = (r, h2) \<and>
           drive_inputs 3 h2 inputs1 inputs2 (to_binary 1 2) (to_binary 1 2) =
             Some (Return () h3) \<and>
           list_all (is_set h3) outputs \<and>
           (\<exists>res. get_result h3 r = Inr res) \<and> (\<exists>s. get_sign h3 r = Inr s))"
proof -
  have h1: "(1::int) \<le> 2" and h2: "(3::nat) \<le> 3" by simp_all
  from outputs_settle [OF h1 h2, of empty_heap 1 1]
  obtain inputs1 inputs2 outputs h1' r h2' h3 where
     "build_circuit 3 empty_heap 2 = Some (Return (inputs1, inputs2, outputs) h1')"
     "length outputs = nat 2"
     "Converter h1' outputs = (r, h2')"
     "drive_inputs 3 h2' inputs1 inputs2 (to_binary 1 2) (to_binary 1 2) = Some (Return () h3)"
     "list_all (is_set h3) outputs"
     "\<exists>res. get_result h3 r = Inr res" "\<exists>s. get_sign h3 r = Inr s"
    by blast
  with h1 h2 show ?thesis by blast
qed

section \<open>One full adder\<close>

lemma full_adder_orders:
  assumes dist: "distinct [a, b, cin, out, cout, w1, w2, w3]"
    and obs: "wire_observers (wires h a) =
             [DoubleInputGate XorGate a b w1, DoubleInputGate AndGate a b w2]"
      "wire_observers (wires h b) =
             [DoubleInputGate XorGate a b w1, DoubleInputGate AndGate a b w2]"
      "wire_observers (wires h cin) =
             [DoubleInputGate XorGate cin w1 out, DoubleInputGate AndGate cin w1 w3]"
      "wire_observers (wires h w1) =
             [DoubleInputGate XorGate cin w1 out, DoubleInputGate AndGate cin w1 w3]"
      "wire_observers (wires h w2) = [DoubleInputGate OrGate w3 w2 cout]"
      "wire_observers (wires h w3) = [DoubleInputGate OrGate w3 w2 cout]"
      "wire_observers (wires h out) = []"
      "wire_observers (wires h cout) = []"
    and unset: "\<forall>w \<in> set [a, b, cin, out, cout, w1, w2, w3]. wire_value (wires h w) = None"
    and bits: "x = 0 \<or> x = 1" "y = 0 \<or> y = 1" "c = 0 \<or> c = 1"
    and ord: "ord \<in> {[(a, x), (b, y), (cin, c)], [(a, x), (cin, c), (b, y)],
                     [(b, y), (a, x), (cin, c)], [(b, y), (cin, c), (a, x)],
                     [(cin, c), (a, x), (b, y)], [(cin, c), (b, y), (a, x)]}"
  shows "\<exists>h'. set_all (Suc (Suc (Suc fuel))) h ord = Some (Return () h') \<and>
           wire_value (wires h' out) = Some (c XOR (x XOR y)) \<and>
           wire_value (wires h' cout) = Some ((c AND (x XOR y)) OR (x AND y))"
proof -
  have dist': "distinct [w3, w2, w1, cout, out, cin, b, a]"
    using dist by auto
  note facts = dist dist' obs unset
  from ord consider
      "ord = [(a, x), (b, y), (cin, c)]" | "ord = [(a, x), (cin, c), (b, y)]"
    | "ord = [(b, y), (a, x), (cin, c)]" | "ord = [(b, y), (cin, c), (a, x)]"
    | "ord = [(cin, c), (a, x), (b, y)]" | "ord = [(cin, c), (b, y), (a, x)]"
    by blast
  then show ?thesis
  proof cases
    case 1
    from bits facts show ?thesis
      unfolding 1
      by (elim disjE; simp add: set_wire_bit update_gate del: set_wire.simps update.simps)
  next
    case 2
    from bits facts show ?thesis
      unfolding 2
      by (elim disjE; simp add: set_wire_bit update_gate del: set_wire.simps update.simps)
  next
    case 3
    from bits facts show ?thesis
      unfolding 3
      by (elim disjE; simp add: set_wire_bit update_gate del: set_wire.simps update.simps)
  next
    case 4
    from bits facts show ?thesis
      unfolding 4
      by (elim disjE; simp add: set_wire_bit update_gate del: set_wire.simps update.simps)
  next
    case 5
    from bits facts show ?thesis
      unfolding 5
      by (elim disjE; simp add: set_wire_bit update_gate del: set_wire.simps update.simps)
  next
    case 6
    from bits facts show ?thesis
      unfolding 6
      by (elim disjE; simp add: set_wire_bit update_gate del: set_wire.simps update.simps)
  qed
qed


lemma fresh_full_adder_fst:
  "fst (fresh_full_adder h) =
     (next_wire h, next_wire h + 1, next_wire h + 2, next_wire h + 3, next_wire h + 4)"
  by (simp add: fresh_full_adder_def Let_def case_prod_unfold)

lemma fresh_full_adder_wired:
  fixes h :: heap
  defines "N \<equiv> next_wire h" and "h0 \<equiv> snd (fresh_full_adder h)"
  shows "wire_observers (wires h0 N) =
             [DoubleInputGate XorGate N (N + 1) (N + 5), DoubleInputGate AndGate N (N + 1) (N + 6)]"
    and "wire_observers (wires h0 (N + 1)) =
             [DoubleInputGate XorGate N (N + 1) (N + 5), DoubleInputGate AndGate N (N + 1) (N + 6)]"
    and "wire_observers (wires h0 (N + 2)) =
             [DoubleInputGate XorGate (N + 2) (N + 5) (N + 3),
              DoubleInputGate AndGate (N + 2) (N + 5) (N + 7)]"
    and "wire_observers (wires h0 (N + 5)) =
             [DoubleInputGate XorGate (N + 2) (N + 5) (N + 3),
              DoubleInputGate AndGate (N + 2) (N + 5) (N + 7)]"
    and "wire_observers (wires h0 (N + 6)) = [DoubleInputGate OrGate (N + 7) (N + 6) (N + 4)]"
    and "wire_observers (wires h0 (N + 7)) = [DoubleInputGate OrGate (N + 7) (N + 6) (N + 4)]"
    and "wire_observers (wires h0 (N + 3)) = []"
    and "wire_observers (wires h0 (N + 4)) = []"
    and "\<forall>w \<in> set [N, N + 1, N + 2, N + 3, N + 4, N + 5, N + 6, N + 7].
           wire_value (wires h0 w) = None"
  unfolding N_def h0_def
  by (simp_all add: fresh_full_adder_def FullAdder_def HalfAdder_def Let_def case_prod_unfold)

text \<open>
  Claim C4. For all bits \<open>x\<close>, \<open>y\<close>, \<open>c\<close>: after a \<^verbatim>\<open>FullAdder\<close> has been
  constructed on five fresh wires, setting its two input wires to \<open>x\<close> and \<open>y\<close> and its
  carry-in wire to \<open>c\<close>, each once and in any of the six orders, returns and leaves the
  output wire and the carry-out wire set, with \<open>sum + 2 * carry_out = x + y + c\<close>.
\<close>

theorem full_adder_sum:
  assumes fresh: "fresh_full_adder h = ((in1, in2, carry_in, out, carry_out), h0)"
    and bits: "x \<in> {0, 1}" "y \<in> {0, 1}" "c \<in> {0, 1}"
    and ord: "ord \<in> {[(in1, x), (in2, y), (carry_in, c)], [(in1, x), (carry_in, c), (in2, y)],
                     [(in2, y), (in1, x), (carry_in, c)], [(in2, y), (carry_in, c), (in1, x)],
                     [(carry_in, c), (in1, x), (in2, y)], [(carry_in, c), (in2, y), (in1, x)]}"
    and fuel: "3 \<le> fuel"
  shows "\<exists>h' s co. set_all fuel h0 ord = Some (Return () h') \<and>
           is_set h' out \<and> is_set h' carry_out \<and>
           get_value h' out = Inr s \<and> get_value h' carry_out = Inr co \<and>
           s + 2 * co = x + y + c"
proof -
  define N where "N = next_wire h"
  define f where "f = fuel - 3"
  have f: "fuel = Suc (Suc (Suc f))"
    using fuel unfolding f_def by linarith
  from fresh fresh_full_adder_fst [of h]
  have addr: "in1 = N" "in2 = N + 1" "carry_in = N + 2" "out = N + 3" "carry_out = N + 4"
    and h0: "h0 = snd (fresh_full_adder h)"
    by (simp_all add: N_def)
  have b: "x = 0 \<or> x = 1" "y = 0 \<or> y = 1" "c = 0 \<or> c = 1"
    using bits by simp_all
  have dist: "distinct [N, N + 1, N + 2, N + 3, N + 4, N + 5, N + 6, N + 7]"
    by simp
  note wired = fresh_full_adder_wired [of h, folded N_def h0]
  from full_adder_orders [OF dist wired b ord [unfolded addr], of f]
  obtain h' where run: "set_all fuel h0 ord = Some (Return () h')"
    and s: "wire_value (wires h' out) = Some (c XOR (x XOR y))"
    and co: "wire_value (wires h' carry_out) = Some ((c AND (x XOR y)) OR (x AND y))"
    unfolding f addr by blast
  from run s co full_adder_arith [OF b] show ?thesis
    by (simp add: is_set_def get_value_def)
qed

theorem full_adder_sum_witness:
  "fresh_full_adder empty_heap = ((0, 1, 2, 3, 4), snd (fresh_full_adder empty_heap)) \<and>
   (\<exists>h' s co. set_all 3 (snd (fresh_full_adder empty_heap)) [(2, 1), (0, 1), (1, 0)] =
        Some (Return () h') \<and>
      is_set h' 3 \<and> is_set h' 4 \<and> get_value h' 3 = Inr s \<and> get_value h' 4 = Inr co \<and>
      s + 2 * co = 1 + 0 + 1)"
proof -
  have fresh: "fresh_full_adder empty_heap = ((0, 1, 2, 3, 4), snd (fresh_full_adder empty_heap))"
    using fresh_full_adder_fst [of empty_heap] by (simp add: prod_eq_iff empty_heap_def)
  have bits: "(1::int) \<in> {0, 1}" "(0::int) \<in> {0, 1}" "(1::int) \<in> {0, 1}" by simp_all
  have fuel: "(3::nat) \<le> 3" by simp
  have ord: "[(2, 1), (0, 1), (1, 0)] \<in>
     {[(0::nat, 1::int), (1, 0), (2, 1)], [(0, 1), (2, 1), (1, 0)],
      [(1, 0), (0, 1), (2, 1)], [(1, 0), (2, 1), (0, 1)],
      [(2, 1), (0, 1), (1, 0)], [(2, 1), (1, 0), (0, 1)]}"
    by simp
  show ?thesis
    using fresh full_adder_sum [OF fresh bits ord fuel] by blast
qed

section \<open>Setting and reading wires and converters\<close>

lemma cascade_invariant:
  assumes store: "\<And>h w v. I h \<Longrightarrow> v = 0 \<or> v = 1 \<Longrightarrow> I (store_value h w v)"
    and disp: "\<And>h name w. I h \<Longrightarrow> I (final_heap (display_update h name w))"
    and conv: "\<And>h c. I h \<Longrightarrow> I (final_heap (converter_update h c))"
  shows "I h \<Longrightarrow> set_wire fuel h w v = Some r \<Longrightarrow> I (final_heap r)"
    and "I h \<Longrightarrow> notify_observers fuel h obs = Some r \<Longrightarrow> I (final_heap r)"
    and "I h \<Longrightarrow> update fuel h ob = Some r \<Longrightarrow> I (final_heap r)"
proof (induction fuel h w v and fuel h obs and fuel h ob arbitrary: r and r and r
    rule: set_wire_notify_observers_update.induct)
  case (1 h w v)
  then show ?case by simp
next
  case (2 fuel h w v)
  show ?case
  proof (cases "v \<noteq> 0 \<and> v \<noteq> 1")
    case True
    with 2 show ?thesis by auto
  next
    case False
    with 2 store [of h v w] show ?thesis by auto
  qed
next
  case (3 fuel h)
  then show ?case by auto
next
  case (4 fuel h observer rest)
  show ?case
  proof (cases "update fuel h observer")
    case None
    with 4 show ?thesis by simp
  next
    case (Some r1)
    show ?thesis
    proof (cases r1)
      case (Return u h')
      from 4(1) [OF 4(3) Some] Return have "I h'" by simp
      with 4(2) [OF Some Return] 4(4) Some Return show ?thesis by simp
    next
      case (Raise e h')
      from 4(1) [OF 4(3) Some] Raise have "I h'" by simp
      with 4(4) Some Raise show ?thesis by auto
    qed
  qed
next
  case (5 fuel h name w)
  with disp [of h name w] show ?case by auto
next
  case (6 fuel h kind input1 input2 out)
  then show ?case
    by (auto simp: get_value_def is_set_def split: if_splits option.splits)
next
  case (7 fuel h c)
  with conv [of h c] show ?case by auto
qed

lemma binary_values_store:
  "binary_values h \<Longrightarrow> v = 0 \<or> v = 1 \<Longrightarrow> binary_values (store_value h w v)"
  by (simp add: binary_values_def)

lemma final_heap_display:
  "wires (final_heap (display_update h name w)) = wires h"
  "converters (final_heap (display_update h name w)) = converters h"
  by (simp_all add: display_update_def split: sum.splits)

lemma final_heap_converter:
  "wires (final_heap (converter_update h c)) = wires h"
  "c' \<noteq> c \<Longrightarrow> converters (final_heap (converter_update h c)) c' = converters h c'"
  "conv_outputs (converters (final_heap (converter_update h c)) c') = conv_outputs (converters h c')"
  by (simp_all add: converter_update_def Let_def split: sum.splits)

lemma binary_values_cascade:
  assumes "binary_values h"
  shows "set_wire fuel h w v = Some r \<Longrightarrow> binary_values (final_heap r)"
    and "notify_observers fuel h obs = Some r \<Longrightarrow> binary_values (final_heap r)"
    and "update fuel h ob = Some r \<Longrightarrow> binary_values (final_heap r)"
proof -
  have store: "\<And>h w v. binary_values h \<Longrightarrow> v = 0 \<or> v = 1 \<Longrightarrow> binary_values (store_value h w v)"
    by (rule binary_values_store)
  have disp: "\<And>h name w. binary_values h \<Longrightarrow> binary_values (final_heap (display_update h name w))"
    by (simp add: binary_values_def final_heap_display)
  have conv: "\<And>h c. binary_values h \<Longrightarrow> binary_values (final_heap (converter_update h c))"
    by (simp add: binary_values_def final_heap_converter)
  show "binary_values (final_heap r)" if "set_wire fuel h w v = Some r"
    by (rule cascade_invariant(1) [where I = binary_values, OF _ _ _ assms that])
       (blast intro: store disp conv)+
  show "binary_values (final_heap r)" if "notify_observers fuel h obs = Some r"
    by (rule cascade_invariant(2) [where I = binary_values, OF _ _ _ assms that])
       (blast intro: store disp conv)+
  show "binary_values (final_heap r)" if "update fuel h ob = Some r"
    by (rule cascade_invariant(3) [where I = binary_values, OF _ _ _ assms that])
       (blast intro: store disp conv)+
qed

lemma assertion_only_at_invalid_value:
  "binary_values h \<Longrightarrow> set_wire fuel h w v = Some (Raise e h') \<Longrightarrow> e = AssertionError \<Longrightarrow>
     v \<noteq> 0 \<and> v \<noteq> 1"
  "binary_values h \<Longrightarrow> notify_observers fuel h obs = Some (Raise e h') \<Longrightarrow> e \<noteq> AssertionError"
  "binary_values h \<Longrightarrow> update fuel h ob = Some (Raise e h') \<Longrightarrow> e \<noteq> AssertionError"
proof (induction fuel h w v and fuel h obs and fuel h ob arbitrary: e h' and e h' and e h'
    rule: set_wire_notify_observers_update.induct)
  case (1 h w v)
  then show ?case by simp
next
  case (2 fuel h w v)
  show ?case
  proof (rule ccontr)
    assume "\<not> (v \<noteq> 0 \<and> v \<noteq> 1)"
    then have v: "v = 0 \<or> v = 1" by auto
    then have "notify_observers fuel (store_value h w v) (wire_observers (wires h w)) =
               Some (Raise e h')"
      using 2(3) by auto
    with 2(1) [of e h'] v 2(2) 2(4) binary_values_store show False
      by blast
  qed
next
  case (3 fuel h)
  then show ?case by simp
next
  case (4 fuel h observer rest)
  show ?case
  proof (cases "update fuel h observer")
    case None
    with 4 show ?thesis by simp
  next
    case (Some r1)
    show ?thesis
    proof (cases r1)
      case (Return u h1)
      with binary_values_cascade(3) [OF 4(3) Some] have "binary_values h1" by simp
      moreover from 4(4) Some Return have "notify_observers fuel h1 rest = Some (Raise e h')"
        by simp
      ultimately show ?thesis
        using 4(2) [OF Some Return] by blast
    next
      case (Raise e1 h1)
      with 4(4) Some have "e1 = e" "h1 = h'" by simp_all
      with 4(1) [OF 4(3)] Some Raise show ?thesis by simp
    qed
  qed
next
  case (5 fuel h name w)
  then show ?case
    by (auto simp: display_update_def get_value_def split: option.splits)
next
  case (6 fuel h kind input1 input2 out)
  show ?case
  proof (cases "is_set h input1 \<and> is_set h input2")
    case False
    with 6 show ?thesis by auto
  next
    case True
    then obtain x y where x: "wire_value (wires h input1) = Some x"
      and y: "wire_value (wires h input2) = Some y"
      by (auto simp: is_set_def)
    with 6(2) have "x = 0 \<or> x = 1" "y = 0 \<or> y = 1"
      by (auto simp: binary_values_def)
    then have op: "operation kind x y = 0 \<or> operation kind x y = 1"
      by (rule operation_bit)
    from True x y 6(3) have "set_wire fuel h out (operation kind x y) = Some (Raise e h')"
      by (simp add: get_value_def)
    with 6(1) [OF True, of x y e h'] x y 6(2) op show ?thesis
      by (auto simp: get_value_def)
  qed
next
  case (7 fuel h c)
  then show ?case
    by (auto simp: converter_update_def Let_def read_values_set split: if_splits)
qed

lemma notify_displays:
  "wire_value (wires h w) = Some v \<Longrightarrow>
   notify_observers fuel h (map (\<lambda>name. Display name w) names) =
     Some (Return () (h\<lparr>printed := printed h @ map (\<lambda>name. (name, v)) names\<rparr>))"
proof (induction names arbitrary: h)
  case Nil
  show ?case by simp
next
  case (Cons name names)
  let ?h1 = "h\<lparr>printed := printed h @ [(name, v)]\<rparr>"
  from Cons.prems have "wire_value (wires ?h1 w) = Some v" by simp
  from Cons.IH [OF this] Cons.prems show ?case
    by (simp add: display_update_def get_value_def)
qed

text \<open>
  Claim C6, as the program has it. The program has no check against a second
  \<^verbatim>\<open>set\<close>: on a wire that already holds a value, \<^verbatim>\<open>set\<close> with a value in \<open>{0, 1}\<close>
  stores the new value over the old one and notifies the observers of the wire again, as
  the first call did; on a wire observed by \<^verbatim>\<open>Display\<close> objects only (or by nothing)
  it returns after each display has printed the new value.
\<close>

theorem set_again_overwrites:
  assumes "is_set h w" and "v \<in> {0, 1}"
  shows "set_wire (Suc fuel) h w v =
           notify_observers fuel (store_value h w v) (wire_observers (wires h w)) \<and>
         get_value (store_value h w v) w = Inr v \<and>
         (\<forall>names. wire_observers (wires h w) = map (\<lambda>name. Display name w) names \<longrightarrow>
            set_wire (Suc fuel) h w v =
              Some (Return () ((store_value h w v)
                     \<lparr>printed := printed h @ map (\<lambda>name. (name, v)) names\<rparr>)))"
proof -
  have v: "wire_value (wires (store_value h w v) w) = Some v" by simp
  from assms(2) have "set_wire (Suc fuel) h w v =
           notify_observers fuel (store_value h w v) (wire_observers (wires h w))"
    by auto
  with notify_displays [OF v, of fuel] show ?thesis
    by (simp add: get_value_def)
qed

theorem set_again_overwrites_witness:
  "is_set (store_value watched_wire 0 0) 0 \<and> (1::int) \<in> {0, 1} \<and>
   set_wire 1 (store_value watched_wire 0 0) 0 1 =
     Some (Return () ((store_value (store_value watched_wire 0 0) 0 1)
            \<lparr>printed := printed (store_value watched_wire 0 0) @ [(''out'', 1)]\<rparr>))"
proof -
  have s: "is_set (store_value watched_wire 0 0) 0" by simp
  have v: "(1::int) \<in> {0, 1}" by simp
  have obs: "wire_observers (wires (store_value watched_wire 0 0) 0) =
             map (\<lambda>name. Display name 0) [''out'']"
    by (simp add: watched_wire_def Wire_def new_display_def add_observer_def empty_heap_def)
  from set_again_overwrites [OF s v, of 0]
  have "\<forall>names. wire_observers (wires (store_value watched_wire 0 0) 0) =
            map (\<lambda>name. Display name 0) names \<longrightarrow>
          set_wire (Suc 0) (store_value watched_wire 0 0) 0 1 =
            Some (Return () ((store_value (store_value watched_wire 0 0) 0 1)
              \<lparr>printed := printed (store_value watched_wire 0 0) @
                   map (\<lambda>name. (name, 1)) names\<rparr>))"
    by blast
  from this [rule_format, OF obs] s v show ?thesis
    by simp
qed

theorem second_set_counterexample:
  "set_wire 1 watched_wire 0 0 =
     Some (Return () ((store_value watched_wire 0 0)\<lparr>printed := [(''out'', 0)]\<rparr>)) \<and>
   is_set ((store_value watched_wire 0 0)\<lparr>printed := [(''out'', 0)]\<rparr>) 0 \<and>
   set_wire 1 ((store_value watched_wire 0 0)\<lparr>printed := [(''out'', 0)]\<rparr>) 0 1 =
     Some (Return () ((store_value (store_value watched_wire 0 0) 0 1)
            \<lparr>printed := [(''out'', 0), (''out'', 1)]\<rparr>)) \<and>
   get_value ((store_value (store_value watched_wire 0 0) 0 1)
            \<lparr>printed := [(''out'', 0), (''out'', 1)]\<rparr>) 0 = Inr 1"
  by (simp add: watched_wire_def Wire_def new_display_def add_observer_def empty_heap_def
        store_value_def display_update_def get_value_def is_set_def)

lemma is_set_cascade:
  assumes "is_set h u"
  shows "set_wire fuel h w v = Some r \<Longrightarrow> is_set (final_heap r) u"
    and "notify_observers fuel h obs = Some r \<Longrightarrow> is_set (final_heap r) u"
    and "update fuel h ob = Some r \<Longrightarrow> is_set (final_heap r) u"
proof -
  have store: "\<And>h w v. is_set h u \<Longrightarrow> v = 0 \<or> v = 1 \<Longrightarrow> is_set (store_value h w v) u"
    by simp
  have disp: "\<And>h name w. is_set h u \<Longrightarrow> is_set (final_heap (display_update h name w)) u"
    by (simp add: is_set_def final_heap_display)
  have conv: "\<And>h c. is_set h u \<Longrightarrow> is_set (final_heap (converter_update h c)) u"
    by (simp add: is_set_def final_heap_converter)
  show "is_set (final_heap r) u" if "set_wire fuel h w v = Some r"
    by (rule cascade_invariant(1) [where I = "\<lambda>h. is_set h u", OF _ _ _ assms that])
       (blast intro: store disp conv)+
  show "is_set (final_heap r) u" if "notify_observers fuel h obs = Some r"
    by (rule cascade_invariant(2) [where I = "\<lambda>h. is_set h u", OF _ _ _ assms that])
       (blast intro: store disp conv)+
  show "is_set (final_heap r) u" if "update fuel h ob = Some r"
    by (rule cascade_invariant(3) [where I = "\<lambda>h. is_set h u", OF _ _ _ assms that])
       (blast intro: store disp conv)+
qed

lemma is_set_final [simp]:
  "is_set (final_heap (display_update h name w)) = is_set h"
  "is_set (final_heap (converter_update h c)) = is_set h"
  by (simp_all add: fun_eq_iff is_set_def final_heap_display final_heap_converter)

















lemma updates_in_order_stuck:
  "foldl (\<lambda>so_far ob. case so_far of Some (Return _ h') \<Rightarrow> update fuel h' ob | _ \<Rightarrow> so_far)
     None obs = None"
  "foldl (\<lambda>so_far ob. case so_far of Some (Return _ h') \<Rightarrow> update fuel h' ob | _ \<Rightarrow> so_far)
     (Some (Raise e h)) obs = Some (Raise e h)"
  by (induction obs) simp_all

lemma notify_in_order: "notify_observers fuel h obs = updates_in_order fuel h obs"
proof (induction obs arbitrary: h)
  case Nil
  show ?case by (simp add: updates_in_order_def)
next
  case (Cons ob obs)
  show ?case
  proof (cases "update fuel h ob")
    case None
    then show ?thesis
      by (simp add: updates_in_order_def updates_in_order_stuck)
  next
    case (Some r)
    then show ?thesis
      using Cons.IH by (cases r) (simp_all add: updates_in_order_def updates_in_order_stuck)
  qed
qed

lemma set_one_gate:
  assumes obs: "wire_observers (wires h w) = [DoubleInputGate kind w input2 out]"
    and other: "input2 \<noteq> w" "wire_value (wires h input2) = Some y"
    and out: "wire_observers (wires h out) = []"
    and bits: "v = 0 \<or> v = 1" "y = 0 \<or> y = 1"
  shows "set_wire (Suc (Suc fuel)) h w v =
           Some (Return () (store_value (store_value h w v) out (operation kind v y)))"
  using assms operation_bit [OF bits, of kind]
  by (simp add: set_wire_bit update_gate del: set_wire.simps update.simps)

lemma undriven_cascade:
  assumes "undriven h u"
  shows "set_wire fuel h w v = Some r \<Longrightarrow> undriven (final_heap r) u"
    and "notify_observers fuel h obs = Some r \<Longrightarrow> undriven (final_heap r) u"
    and "update fuel h ob = Some r \<Longrightarrow> undriven (final_heap r) u"
proof -
  have store: "\<And>h w v. undriven h u \<Longrightarrow> v = 0 \<or> v = 1 \<Longrightarrow>
      undriven (store_value h w v) u"
    by (simp add: undriven_def)
  have disp: "\<And>h name w. undriven h u \<Longrightarrow>
      undriven (final_heap (display_update h name w)) u"
    by (simp add: undriven_def final_heap_display)
  have conv: "\<And>h c. undriven h u \<Longrightarrow>
      undriven (final_heap (converter_update h c)) u"
    by (simp add: undriven_def final_heap_converter)
  show "undriven (final_heap r) u" if "set_wire fuel h w v = Some r"
    by (rule cascade_invariant(1) [where I = "\<lambda>h. undriven h u", OF _ _ _ assms that])
       (blast intro: store disp conv)+
  show "undriven (final_heap r) u" if "notify_observers fuel h obs = Some r"
    by (rule cascade_invariant(2) [where I = "\<lambda>h. undriven h u", OF _ _ _ assms that])
       (blast intro: store disp conv)+
  show "undriven (final_heap r) u" if "update fuel h ob = Some r"
    by (rule cascade_invariant(3) [where I = "\<lambda>h. undriven h u", OF _ _ _ assms that])
       (blast intro: store disp conv)+
qed

lemma value_kept:
  "undriven h u \<Longrightarrow> wire_value (wires h u) = Some x \<Longrightarrow> w \<noteq> u \<Longrightarrow>
     set_wire fuel h w v = Some r \<Longrightarrow> wire_value (wires (final_heap r) u) = Some x"
  "undriven h u \<Longrightarrow> wire_value (wires h u) = Some x \<Longrightarrow>
     (\<forall>kind input1 input2. DoubleInputGate kind input1 input2 u \<notin> set obs) \<Longrightarrow>
     notify_observers fuel h obs = Some r \<Longrightarrow> wire_value (wires (final_heap r) u) = Some x"
  "undriven h u \<Longrightarrow> wire_value (wires h u) = Some x \<Longrightarrow>
     (\<forall>kind input1 input2. ob \<noteq> DoubleInputGate kind input1 input2 u) \<Longrightarrow>
     update fuel h ob = Some r \<Longrightarrow> wire_value (wires (final_heap r) u) = Some x"
proof (induction fuel h w v and fuel h obs and fuel h ob arbitrary: r and r and r
    rule: set_wire_notify_observers_update.induct)
  case (1 h w v)
  then show ?case by simp
next
  case (2 fuel h w v)
  show ?case
  proof (cases "v \<noteq> 0 \<and> v \<noteq> 1")
    case True
    with 2 show ?thesis by auto
  next
    case False
    with 2(5) have run: "notify_observers fuel (store_value h w v) (wire_observers (wires h w)) =
                          Some r"
      by auto
    have nd: "undriven (store_value h w v) u"
      using 2(2) by (simp add: undriven_def)
    have val: "wire_value (wires (store_value h w v) u) = Some x"
      using 2(3) 2(4) by simp
    have gates: "\<forall>kind input1 input2.
        DoubleInputGate kind input1 input2 u \<notin> set (wire_observers (wires h w))"
      using 2(2) by (auto simp: undriven_def)
    from 2(1) [OF False nd val gates run] show ?thesis .
  qed
next
  case (3 fuel h)
  then show ?case by auto
next
  case (4 fuel h observer rest)
  show ?case
  proof (cases "update fuel h observer")
    case None
    with 4 show ?thesis by simp
  next
    case (Some r1)
    from 4(5) have ob: "\<forall>kind input1 input2. observer \<noteq> DoubleInputGate kind input1 input2 u"
      and rest: "\<forall>kind input1 input2. DoubleInputGate kind input1 input2 u \<notin> set rest"
      by auto
    from 4(1) [OF 4(3) 4(4) ob Some] have v1: "wire_value (wires (final_heap r1) u) = Some x" .
    from undriven_cascade(3) [OF 4(3) Some] have nd1: "undriven (final_heap r1) u" .
    show ?thesis
    proof (cases r1)
      case (Return u1 h1)
      with 4(6) Some have "notify_observers fuel h1 rest = Some r" by simp
      with 4(2) [OF Some Return _ _ rest] v1 nd1 Return show ?thesis by simp
    next
      case (Raise e h1)
      with 4(6) Some v1 show ?thesis by auto
    qed
  qed
next
  case (5 fuel h name w)
  then show ?case
    by (auto simp: final_heap_display)
next
  case (6 fuel h kind input1 input2 out)
  from 6(4) have out: "out \<noteq> u" by auto
  show ?case
  proof (cases "is_set h input1 \<and> is_set h input2")
    case False
    with 6 show ?thesis by auto
  next
    case True
    then obtain a b where a: "get_value h input1 = Inr a" and b: "get_value h input2 = Inr b"
      by (auto simp: is_set_def get_value_def)
    with True 6(5) have "set_wire fuel h out (operation kind a b) = Some r"
      by simp
    from 6(1) [OF True a b 6(2) 6(3) out this] show ?thesis .
  qed
next
  case (7 fuel h c)
  then show ?case
    by (auto simp: final_heap_converter)
qed

text \<open>
  Claim C7. In a store whose recorded wire values are bits (\<^verbatim>\<open>set\<close> records no other
  value), \<^verbatim>\<open>Wire.set(value)\<close> fails its assertion (the spec's InvalidValue) exactly when
  \<open>value\<close> is neither 0 nor 1, and it then leaves the store as it was: the wire's value is
  not recorded and no observer has run. When \<open>value\<close> is 0 or 1 the call records the value
  and notifies the observers: its outcome is that of the observers' reactions, run in
  subscription order on the store with the value recorded; the wire is set in whatever
  store the call leaves, and holds \<open>value\<close> there unless it is the output wire of some
  gate; with no observer the call returns the store with the value recorded; with
  \<^verbatim>\<open>Display\<close> observers it returns after each has printed the new value; and a gate
  observing the wire whose other input is set sets its output wire to the gate's
  operation on the two values.
\<close>

theorem set_invalid_value:
  assumes "binary_values h"
  shows "((\<exists>h'. set_wire (Suc fuel) h w v = Some (Raise AssertionError h')) \<longleftrightarrow> v \<notin> {0, 1}) \<and>
         (v \<notin> {0, 1} \<longrightarrow> set_wire (Suc fuel) h w v = Some (Raise AssertionError h)) \<and>
         (v \<in> {0, 1} \<longrightarrow>
            set_wire (Suc fuel) h w v =
              updates_in_order fuel (store_value h w v) (wire_observers (wires h w)) \<and>
            (\<forall>r. set_wire (Suc fuel) h w v = Some r \<longrightarrow>
               is_set (final_heap r) w \<and>
               (undriven h w \<longrightarrow> wire_value (wires (final_heap r) w) = Some v)) \<and>
            (wire_observers (wires h w) = [] \<longrightarrow>
               set_wire (Suc fuel) h w v = Some (Return () (store_value h w v))) \<and>
            (\<forall>names. wire_observers (wires h w) = map (\<lambda>name. Display name w) names \<longrightarrow>
               set_wire (Suc fuel) h w v =
                 Some (Return () ((store_value h w v)
                        \<lparr>printed := printed h @ map (\<lambda>name. (name, v)) names\<rparr>))) \<and>
            (\<forall>kind input2 out y.
               0 < fuel \<and> wire_observers (wires h w) = [DoubleInputGate kind w input2 out] \<and>
               input2 \<noteq> w \<and> wire_value (wires h input2) = Some y \<and>
               wire_observers (wires h out) = [] \<longrightarrow>
               set_wire (Suc fuel) h w v =
                 Some (Return () (store_value (store_value h w v) out (operation kind v y)))))"
proof -
  have iff: "(\<exists>h'. set_wire (Suc fuel) h w v = Some (Raise AssertionError h')) \<longleftrightarrow> v \<notin> {0, 1}"
  proof
    assume "\<exists>h'. set_wire (Suc fuel) h w v = Some (Raise AssertionError h')"
    then obtain h' where "set_wire (Suc fuel) h w v = Some (Raise AssertionError h')" ..
    from assertion_only_at_invalid_value(1) [OF assms this] show "v \<notin> {0, 1}" by simp
  next
    assume "v \<notin> {0, 1}"
    then show "\<exists>h'. set_wire (Suc fuel) h w v = Some (Raise AssertionError h')" by simp
  qed
  have invalid: "v \<notin> {0, 1} \<longrightarrow> set_wire (Suc fuel) h w v = Some (Raise AssertionError h)"
    by simp
  have valid: "set_wire (Suc fuel) h w v =
              updates_in_order fuel (store_value h w v) (wire_observers (wires h w)) \<and>
            (\<forall>r. set_wire (Suc fuel) h w v = Some r \<longrightarrow>
               is_set (final_heap r) w \<and>
               (undriven h w \<longrightarrow> wire_value (wires (final_heap r) w) = Some v)) \<and>
            (wire_observers (wires h w) = [] \<longrightarrow>
               set_wire (Suc fuel) h w v = Some (Return () (store_value h w v))) \<and>
            (\<forall>names. wire_observers (wires h w) = map (\<lambda>name. Display name w) names \<longrightarrow>
               set_wire (Suc fuel) h w v =
                 Some (Return () ((store_value h w v)
                        \<lparr>printed := printed h @ map (\<lambda>name. (name, v)) names\<rparr>))) \<and>
            (\<forall>kind input2 out y.
               0 < fuel \<and> wire_observers (wires h w) = [DoubleInputGate kind w input2 out] \<and>
               input2 \<noteq> w \<and> wire_value (wires h input2) = Some y \<and>
               wire_observers (wires h out) = [] \<longrightarrow>
               set_wire (Suc fuel) h w v =
                 Some (Return () (store_value (store_value h w v) out (operation kind v y))))"
    if v: "v \<in> {0, 1}"
  proof -
    from v have b: "v = 0 \<or> v = 1" by simp
    have run: "set_wire (Suc fuel) h w v =
               notify_observers fuel (store_value h w v) (wire_observers (wires h w))"
      by (rule set_wire_bit [OF b])
    have stored: "wire_value (wires (store_value h w v) w) = Some v" by simp
    have 1: "set_wire (Suc fuel) h w v =
              updates_in_order fuel (store_value h w v) (wire_observers (wires h w))"
      by (simp only: run notify_in_order)
    have 2: "is_set (final_heap r) w \<and>
               (undriven h w \<longrightarrow> wire_value (wires (final_heap r) w) = Some v)"
      if "set_wire (Suc fuel) h w v = Some r" for r
    proof -
      from that have notified: "notify_observers fuel (store_value h w v)
          (wire_observers (wires h w)) = Some r"
        by (simp only: run)
      have "is_set (store_value h w v) w" by simp
      then have "is_set (final_heap r) w"
        using notified by (rule is_set_cascade(2))
      moreover have "wire_value (wires (final_heap r) w) = Some v" if u: "undriven h w"
      proof -
        from u have "undriven (store_value h w v) w"
          by (simp add: undriven_def)
        moreover from u have "\<forall>kind input1 input2.
            DoubleInputGate kind input1 input2 w \<notin> set (wire_observers (wires h w))"
          by (simp add: undriven_def)
        ultimately show ?thesis
          using stored notified value_kept(2) by blast
      qed
      ultimately show ?thesis by blast
    qed
    have 3: "set_wire (Suc fuel) h w v = Some (Return () (store_value h w v))"
      if "wire_observers (wires h w) = []"
      by (simp only: run that notify_observers.simps)
    have 4: "set_wire (Suc fuel) h w v =
                 Some (Return () ((store_value h w v)
                        \<lparr>printed := printed h @ map (\<lambda>name. (name, v)) names\<rparr>))"
      if "wire_observers (wires h w) = map (\<lambda>name. Display name w) names" for names
      using notify_displays [OF stored, of fuel names] by (simp only: run that wires_store_value)
    have 5: "set_wire (Suc fuel) h w v =
                 Some (Return () (store_value (store_value h w v) out (operation kind v y)))"
      if "0 < fuel \<and> wire_observers (wires h w) = [DoubleInputGate kind w input2 out] \<and>
               input2 \<noteq> w \<and> wire_value (wires h input2) = Some y \<and>
               wire_observers (wires h out) = []" for kind input2 out y
    proof -
      from that obtain f where f: "fuel = Suc f" by (cases fuel) auto
      from that have g: "wire_observers (wires h w) = [DoubleInputGate kind w input2 out]"
        and i: "input2 \<noteq> w" "wire_value (wires h input2) = Some y"
        and o: "wire_observers (wires h out) = []"
        by simp_all
      from i(2) assms have y: "y = 0 \<or> y = 1" by (auto simp: binary_values_def)
      show ?thesis
        unfolding f by (rule set_one_gate [OF g i o b y])
    qed
    from 1 2 3 4 5 show ?thesis by blast
  qed
  from iff invalid valid show ?thesis by blast
qed

theorem set_invalid_value_witness:
  "binary_values watched_wire \<and>
   set_wire 1 watched_wire 0 2 = Some (Raise AssertionError watched_wire) \<and>
   \<not> is_set watched_wire 0 \<and>
   set_wire 1 watched_wire 0 1 =
     Some (Return () ((store_value watched_wire 0 1)\<lparr>printed := [(''out'', 1)]\<rparr>)) \<and>
   is_set ((store_value watched_wire 0 1)\<lparr>printed := [(''out'', 1)]\<rparr>) 0"
proof -
  note defs = watched_wire_def Wire_def new_display_def add_observer_def empty_heap_def
  have b: "binary_values watched_wire"
    by (simp add: binary_values_def defs)
  have u: "\<not> is_set watched_wire 0"
    by (simp add: is_set_def defs)
  have obs: "wire_observers (wires watched_wire 0) = map (\<lambda>name. Display name 0) [''out'']"
    by (simp add: defs)
  have p: "printed watched_wire = []"
    by (simp add: defs)
  from set_invalid_value [OF b, of 0 0 2]
  have bad: "set_wire 1 watched_wire 0 2 = Some (Raise AssertionError watched_wire)"
    by simp
  from set_invalid_value [OF b, of 0 0 1]
  have "\<forall>names. wire_observers (wires watched_wire 0) = map (\<lambda>name. Display name 0) names \<longrightarrow>
               set_wire (Suc 0) watched_wire 0 1 =
                 Some (Return () ((store_value watched_wire 0 1)
                        \<lparr>printed := printed watched_wire @ map (\<lambda>name. (name, 1)) names\<rparr>))"
    by simp
  from this [rule_format, OF obs] p
  have good: "set_wire 1 watched_wire 0 1 =
     Some (Return () ((store_value watched_wire 0 1)\<lparr>printed := [(''out'', 1)]\<rparr>))"
    by simp
  have "is_set ((store_value watched_wire 0 1)\<lparr>printed := [(''out'', 1)]\<rparr>) 0"
    by (simp add: is_set_def)
  with b u bad good show ?thesis by blast
qed





end
